theory Spec2Isabelle
  imports Complex_Main
begin

section \<open>Recursive feature selection by cross-validated AUC\<close>

text \<open>
  A shallow embedding of \<^verbatim>\<open>disteval/recursive_selection_parallel.py\<close>: the single-candidate
  scorer \<^verbatim>\<open>__single_auc_score__\<close>, the evaluation stage \<^verbatim>\<open>get_all_auc_scores\<close> and the
  search loop \<^verbatim>\<open>recursive_feature_selection_roc_auc\<close>.

  Conventions of the embedding.
  \<^item> Every function that can raise returns \<open>error + 'a\<close> (\<open>Inl\<close> is the exception).
  \<^item> The classifier is a Python object: a reference \<open>'c\<close> into a store \<open>'w\<close> of objects.
    Only \<^verbatim>\<open>fit\<close> may change the store, so every function that fits takes the store and
    returns the new one, also when it raises.
  \<^item> A float is the real number it stands for; an array entry that is not finite
    (\<^verbatim>\<open>np.nan\<close>) is \<open>None\<close>. The one float operation of the file whose rounding matters,
    \<^verbatim>\<open>auc - 0.5\<close> in the selection policy, is rounded as float64 does
    (\<open>float64_round\<close>).
  \<^item> The classifier, scikit-learn's \<^verbatim>\<open>roc_auc_score\<close> and \<^verbatim>\<open>StratifiedKFold\<close>, numpy's
    \<^verbatim>\<open>RandomState\<close> and the repository's \<^verbatim>\<open>ClassifierCharacteristics\<close> are not part of
    the file; they are the fields of the record \<open>env\<close>, and the theorems hold for every
    value of it.
\<close>

subsection \<open>Exceptions and arrays\<close>

datatype error =
  ValueError | IndexError | TypeError | UnboundLocalError | AssertionError | OtherError

text \<open>A two-dimensional numpy array: its second dimension is known also when it has no row.\<close>

record 'a matrix =
  ncols :: nat
  rows :: "'a list list"

text \<open>\<^verbatim>\<open>X[idx]\<close> for an integer index array: the rows of \<open>X\<close> in the order of \<open>idx\<close>.\<close>

definition take_rows :: "'a matrix \<Rightarrow> nat list \<Rightarrow> error + 'a matrix" where
  "take_rows X idx =
     (if list_all (\<lambda>i. i < length (rows X)) idx
      then Inr (X\<lparr>rows := map (\<lambda>i. rows X ! i) idx\<rparr>)
      else Inl IndexError)"

text \<open>\<^verbatim>\<open>y[idx]\<close> on a one-dimensional array.\<close>

definition take_elems :: "'a list \<Rightarrow> nat list \<Rightarrow> error + 'a list" where
  "take_elems y idx =
     (if list_all (\<lambda>i. i < length y) idx
      then Inr (map (\<lambda>i. y ! i) idx)
      else Inl IndexError)"

text \<open>\<^verbatim>\<open>X[:, js]\<close> for an integer index array \<open>js\<close>.\<close>

definition take_cols :: "'a matrix \<Rightarrow> nat list \<Rightarrow> error + 'a matrix" where
  "take_cols X js =
     (if list_all (\<lambda>j. j < ncols X) js
      then Inr \<lparr>ncols = length js, rows = map (\<lambda>r. map (\<lambda>j. r ! j) js) (rows X)\<rparr>
      else Inl IndexError)"

text \<open>\<^verbatim>\<open>P[:, j]\<close>: one column as a vector.\<close>

definition column :: "'a matrix \<Rightarrow> nat \<Rightarrow> error + 'a list" where
  "column P j =
     (if j < ncols P then Inr (map (\<lambda>r. r ! j) (rows P)) else Inl IndexError)"

text \<open>
  \<^verbatim>\<open>a[idx] = vs\<close> on a one-dimensional array: \<open>vs\<close> has one value per index, or a single
  value that is broadcast; a later index wins over an equal earlier one.
\<close>

definition put_elems :: "'a list \<Rightarrow> nat list \<Rightarrow> 'a list \<Rightarrow> error + 'a list" where
  "put_elems a idx vs =
     (if length vs \<noteq> length idx \<and> length vs \<noteq> 1 then Inl ValueError
      else if \<not> list_all (\<lambda>i. i < length a) idx then Inl IndexError
      else if length vs = length idx
        then Inr (fold (\<lambda>(i, v) b. b[i := v]) (zip idx vs) a)
        else Inr (fold (\<lambda>i b. b[i := hd vs]) idx a))"

text \<open>\<^verbatim>\<open>a[i] = v\<close> on a Python list or a numpy vector, for an index \<open>i \<ge> 0\<close>.\<close>

definition setitem :: "'a list \<Rightarrow> nat \<Rightarrow> 'a \<Rightarrow> error + 'a list" where
  "setitem a i v = (if i < length a then Inr (a[i := v]) else Inl IndexError)"

subsection \<open>The external collaborators\<close>

text \<open>
  \<open>fit\<close> is the classifier's method: called on the object \<open>c\<close> in the store \<open>w\<close> it
  returns the store it leaves behind and the object it returns (scikit-learn returns
  \<open>c\<close> itself, fitted in place). \<open>predict_proba\<close> reads the store.
  \<open>roc_auc_score y_true y_score sample_weight\<close> returns a float (\<open>None\<close> when it is not
  finite). \<open>RandomState seed\<close> is numpy's generator for an integer seed and
  \<open>StratifiedKFold_split n_splits rng X y\<close> is the list of
  \<open>(train_idx, test_idx)\<close> pairs of
  \<^verbatim>\<open>StratifiedKFold(n_splits, shuffle=True, random_state=rng).split(X, y)\<close>.
  \<open>fulfilling\<close> is the check of \<^verbatim>\<open>ClassifierCharacteristics\<close> that the object has a
  callable \<^verbatim>\<open>fit\<close> and \<^verbatim>\<open>predict_proba\<close>.
\<close>

record ('w, 'c, 'g) env =
  fulfilling :: "'w \<Rightarrow> 'c \<Rightarrow> bool"
  fit :: "'w \<Rightarrow> 'c \<Rightarrow> real matrix \<Rightarrow> real list \<Rightarrow> real list option \<Rightarrow> 'w \<times> (error + 'c)"
  predict_proba :: "'w \<Rightarrow> 'c \<Rightarrow> real matrix \<Rightarrow> error + real matrix"
  roc_auc_score :: "real list \<Rightarrow> real list \<Rightarrow> real list option \<Rightarrow> error + real option"
  RandomState :: "int \<Rightarrow> error + 'g"
  StratifiedKFold_split ::
    "nat \<Rightarrow> 'g \<Rightarrow> real matrix \<Rightarrow> real list \<Rightarrow> error + (nat list \<times> nat list) list"

subsection \<open>The single-candidate scorer\<close>

text \<open>
  The names the body of the \<^verbatim>\<open>for\<close> loop of \<^verbatim>\<open>__single_auc_score__\<close> binds and the code
  after the loop reads: \<^verbatim>\<open>test_idx\<close>, \<^verbatim>\<open>X_test\<close> and \<^verbatim>\<open>sample_weight_test\<close>.
\<close>

type_synonym fold_vars = "nat list \<times> real matrix \<times> real list option"

text \<open>Lines 195 to 203: the slices of one fold.\<close>

definition fold_slices ::
  "real matrix \<Rightarrow> real list \<Rightarrow> real list option \<Rightarrow> nat list \<Rightarrow> nat list \<Rightarrow>
     error + (real matrix \<times> real matrix \<times> real list \<times> real list option \<times> real list option)"
where
  "fold_slices X y sample_weight train_idx test_idx =
     (case take_rows X train_idx of
        Inl e \<Rightarrow> Inl e
      | Inr X_train \<Rightarrow>
         (case take_rows X test_idx of
            Inl e \<Rightarrow> Inl e
          | Inr X_test \<Rightarrow>
             (case take_elems y train_idx of
                Inl e \<Rightarrow> Inl e
              | Inr y_train \<Rightarrow>
                 (case sample_weight of
                    None \<Rightarrow> Inr (X_train, X_test, y_train, None, None)
                  | Some sw \<Rightarrow>
                     (case take_elems sw train_idx of
                        Inl e \<Rightarrow> Inl e
                      | Inr sw_train \<Rightarrow>
                         (case take_elems sw test_idx of
                            Inl e \<Rightarrow> Inl e
                          | Inr sw_test \<Rightarrow>
                              Inr (X_train, X_test, y_train, Some sw_train, Some sw_test)))))))"

text \<open>
  The \<^verbatim>\<open>for\<close> loop, lines 194 to 206. Its state is the local name \<^verbatim>\<open>clf\<close>, rebound to what
  \<^verbatim>\<open>fit\<close> returns, the names of the last fold (\<open>None\<close> before the first fold) and the
  store. The loop does not predict: line 207 stands after it.
\<close>

fun cv_loop ::
  "('w, 'c, 'g) env \<Rightarrow> (nat list \<times> nat list) list \<Rightarrow> real matrix \<Rightarrow> real list \<Rightarrow>
     real list option \<Rightarrow> 'c \<Rightarrow> fold_vars option \<Rightarrow> 'w \<Rightarrow> 'w \<times> (error + 'c \<times> fold_vars option)"
where
  "cv_loop env [] X y sample_weight clf vars w = (w, Inr (clf, vars))"
| "cv_loop env ((train_idx, test_idx) # cv_indices) X y sample_weight clf vars w =
     (case fold_slices X y sample_weight train_idx test_idx of
        Inl e \<Rightarrow> (w, Inl e)
      | Inr (X_train, X_test, y_train, sw_train, sw_test) \<Rightarrow>
         (case fit env w clf X_train y_train sw_train of
            (w', Inl e) \<Rightarrow> (w', Inl e)
          | (w', Inr clf') \<Rightarrow>
              cv_loop env cv_indices X y sample_weight clf'
                (Some (test_idx, X_test, sw_test)) w'))"

text \<open>
  Lines 193 and 207: the prediction vector handed to the AUC, with the weights of line 208.
  With no fold at all the names of line 207 are unbound.
\<close>

definition single_y_pred ::
  "('w, 'c, 'g) env \<Rightarrow> 'c \<Rightarrow> (nat list \<times> nat list) list \<Rightarrow> real matrix \<Rightarrow> real list \<Rightarrow>
     real list option \<Rightarrow> 'w \<Rightarrow> 'w \<times> (error + real list \<times> real list option)"
where
  "single_y_pred env clf cv_indices X y sample_weight w =
     (case cv_loop env cv_indices X y sample_weight clf None w of
        (w', Inl e) \<Rightarrow> (w', Inl e)
      | (w', Inr (clf', None)) \<Rightarrow> (w', Inl UnboundLocalError)
      | (w', Inr (clf', Some (test_idx, X_test, sw_test))) \<Rightarrow>
         (case predict_proba env w' clf' X_test of
            Inl e \<Rightarrow> (w', Inl e)
          | Inr P \<Rightarrow>
             (case column P 1 of
                Inl e \<Rightarrow> (w', Inl e)
              | Inr p1 \<Rightarrow>
                 (case put_elems (replicate (length y) 0) test_idx p1 of
                    Inl e \<Rightarrow> (w', Inl e)
                  | Inr y_pred \<Rightarrow> (w', Inr (y_pred, sw_test))))))"

definition single_auc_score ::
  "('w, 'c, 'g) env \<Rightarrow> nat \<Rightarrow> 'c \<Rightarrow> (nat list \<times> nat list) list \<Rightarrow> real matrix \<Rightarrow> real list \<Rightarrow>
     real list option \<Rightarrow> 'w \<Rightarrow> 'w \<times> (error + nat \<times> real option)"
where
  "single_auc_score env feature_i clf cv_indices X y sample_weight w =
     (case single_y_pred env clf cv_indices X y sample_weight w of
        (w', Inl e) \<Rightarrow> (w', Inl e)
      | (w', Inr (y_pred, sw_test)) \<Rightarrow>
         (case roc_auc_score env y y_pred sw_test of
            Inl e \<Rightarrow> (w', Inl e)
          | Inr auc \<Rightarrow> (w', Inr (feature_i, auc))))"

subsection \<open>The evaluation stage\<close>

text \<open>
  The argument \<^verbatim>\<open>random_state\<close> of \<^verbatim>\<open>get_all_auc_scores\<close>: \<^verbatim>\<open>None\<close>, an integer seed or a
  generator.
\<close>

datatype 'g random_state_arg = RS_None | RS_Int int | RS_Instance 'g

text \<open>
  Lines 264 and 265. \<^verbatim>\<open>np.random.RandomState(None)\<close> seeds itself from the operating
  system; \<open>entropy\<close> is the generator that call returns, an input of the model.
\<close>

definition make_random_state ::
  "('w, 'c, 'g) env \<Rightarrow> 'g random_state_arg \<Rightarrow> 'g \<Rightarrow> error + 'g"
where
  "make_random_state env random_state entropy =
     (case random_state of
        RS_Instance g \<Rightarrow> Inr g
      | RS_Int seed \<Rightarrow> RandomState env seed
      | RS_None \<Rightarrow> Inr entropy)"

text \<open>Lines 274 and 275: the features that are not selected yet, in increasing order.\<close>

definition test_features_of :: "real matrix \<Rightarrow> nat list \<Rightarrow> nat list" where
  "test_features_of X selected = filter (\<lambda>i. i \<notin> set selected) [0..<ncols X]"

text \<open>Lines 279 to 285 (and again 293 to 299): the columns tested with one feature.\<close>

definition test_set_of :: "bool \<Rightarrow> nat list \<Rightarrow> nat list \<Rightarrow> nat \<Rightarrow> nat list" where
  "test_set_of forward selected test_features feature_i =
     (if forward then sort (selected @ [feature_i]) else remove1 feature_i test_features)"

text \<open>
  \<^verbatim>\<open>X[:, test_set]\<close>. In a backward run \<^verbatim>\<open>test_set\<close> is \<^verbatim>\<open>np.array(set_i)\<close> of a Python list;
  of the empty list that is an array of floats, which numpy refuses as an index.
\<close>

definition candidate_X :: "real matrix \<Rightarrow> bool \<Rightarrow> nat list \<Rightarrow> error + real matrix" where
  "candidate_X X forward test_set =
     (if \<not> forward \<and> test_set = [] then Inl IndexError else take_cols X test_set)"

text \<open>
  Lines 277 to 289: one entry per candidate, with its columns of \<open>X\<close>. Lines 311 and
  324 take the same columns again; the model uses the ones computed here.
\<close>

fun process_args ::
  "real matrix \<Rightarrow> bool \<Rightarrow> nat list \<Rightarrow> nat list \<Rightarrow> nat list \<Rightarrow> error + (nat \<times> real matrix) list"
where
  "process_args X forward selected test_features [] = Inr []"
| "process_args X forward selected test_features (feature_i # rest) =
     (case candidate_X X forward (test_set_of forward selected test_features feature_i) of
        Inl e \<Rightarrow> Inl e
      | Inr X_i \<Rightarrow>
         (case process_args X forward selected test_features rest of
            Inl e \<Rightarrow> Inl e
          | Inr args \<Rightarrow> Inr ((feature_i, X_i) # args)))"

text \<open>
  Lines 304 to 313, the process pool: every worker scores its candidate on a copy of the
  caller's objects, so each starts from the store \<open>w\<close> and what it does to its copy is
  lost; only the result, or the exception, comes back.
\<close>

definition submit_all ::
  "('w, 'c, 'g) env \<Rightarrow> 'c \<Rightarrow> (nat list \<times> nat list) list \<Rightarrow> real list \<Rightarrow> real list option \<Rightarrow>
     (nat \<times> real matrix) list \<Rightarrow> 'w \<Rightarrow> (error + nat \<times> real option) list"
where
  "submit_all env clf cv_indices y sample_weight args w =
     map (\<lambda>(feature_i, X_i).
            snd (single_auc_score env feature_i clf cv_indices X_i y sample_weight w)) args"

text \<open>
  Lines 314 to 317: the results are written into the array of \<^verbatim>\<open>np.nan\<close>; a worker's
  exception is raised again by \<^verbatim>\<open>result()\<close>. Python leaves the order of \<^verbatim>\<open>results.done\<close>
  open; the model takes the order of submission, which decides only which of several
  exceptions is seen.
\<close>

fun gather :: "real option list \<Rightarrow> (error + nat \<times> real option) list \<Rightarrow> error + real option list"
where
  "gather auc_scores [] = Inr auc_scores"
| "gather auc_scores (Inl e # results) = Inl e"
| "gather auc_scores (Inr (feature_i, auc) # results) =
     (case setitem auc_scores feature_i auc of
        Inl e \<Rightarrow> Inl e
      | Inr auc_scores' \<Rightarrow> gather auc_scores' results)"

text \<open>
  Lines 320 to 327, the sequential branch: the candidates are scored one after another
  on the caller's own classifier object, and each score is assigned into \<open>auc_scores\<close>.
\<close>

fun sequential_loop ::
  "('w, 'c, 'g) env \<Rightarrow> 'c \<Rightarrow> (nat list \<times> nat list) list \<Rightarrow> real list \<Rightarrow> real list option \<Rightarrow>
     real option list \<Rightarrow> (nat \<times> real matrix) list \<Rightarrow> 'w \<Rightarrow> 'w \<times> (error + real option list)"
where
  "sequential_loop env clf cv_indices y sample_weight auc_scores [] w = (w, Inr auc_scores)"
| "sequential_loop env clf cv_indices y sample_weight auc_scores ((feature_i, X_i) # rest) w =
     (case single_auc_score env feature_i clf cv_indices X_i y sample_weight w of
        (w', Inl e) \<Rightarrow> (w', Inl e)
      | (w', Inr (_, auc)) \<Rightarrow>
         (case setitem auc_scores feature_i auc of
            Inl e \<Rightarrow> (w', Inl e)
          | Inr auc_scores' \<Rightarrow>
              sequential_loop env clf cv_indices y sample_weight auc_scores' rest w'))"

text \<open>
  \<^verbatim>\<open>get_all_auc_scores\<close>. \<open>selected_features\<close> is the caller's Python list, whose entries
  are indices or \<^verbatim>\<open>None\<close>; line 266 turns it into an integer array, which fails on
  \<^verbatim>\<open>None\<close>. Line 319 rebinds \<^verbatim>\<open>auc_scores\<close> to the empty Python list before the sequential
  loop assigns into it.
\<close>

definition get_all_auc_scores ::
  "('w, 'c, 'g) env \<Rightarrow> 'c \<Rightarrow> nat option list \<Rightarrow> real matrix \<Rightarrow> real list \<Rightarrow> real list option \<Rightarrow>
     int \<Rightarrow> int \<Rightarrow> bool \<Rightarrow> 'g random_state_arg \<Rightarrow> 'g \<Rightarrow> 'w \<Rightarrow> 'w \<times> (error + real option list)"
where
  "get_all_auc_scores env clf selected_features X y sample_weight cv_steps n_jobs forward
       random_state entropy w =
     (case make_random_state env random_state entropy of
        Inl e \<Rightarrow> (w, Inl e)
      | Inr rng \<Rightarrow>
         if \<not> list_all (\<lambda>s. s \<noteq> None) selected_features then (w, Inl TypeError)
         else if cv_steps < 2 then (w, Inl ValueError)
         else
          (case StratifiedKFold_split env (nat cv_steps) rng X y of
             Inl e \<Rightarrow> (w, Inl e)
           | Inr cv_indices \<Rightarrow>
              (let selected = map the selected_features;
                   test_features = test_features_of X selected
               in case process_args X forward selected test_features test_features of
                    Inl e \<Rightarrow> (w, Inl e)
                  | Inr args \<Rightarrow>
                     if n_jobs > 1
                     then (w, gather (replicate (ncols X) None)
                                (submit_all env clf cv_indices y sample_weight args w))
                     else sequential_loop env clf cv_indices y sample_weight [] args w)))"

subsection \<open>The selection policy\<close>

text \<open>
  The scores are float64 numbers, and lines 131 and 135 compare \<^verbatim>\<open>np.abs(auc - 0.5)\<close>: the
  difference is rounded to the nearest float64 (ties to the even mantissa) before the
  comparison. \<open>float64_round\<close> is that rounding on the reals: \<open>binade\<close> finds the exponent
  \<open>e\<close> with \<open>2^e \<le> a < 2^(e+1)\<close> by halving or doubling (the fuel covers the whole range of
  float64), the spacing of the float64 numbers there is \<open>2^(e-52)\<close> (\<open>e\<close> no less than
  \<open>-1022\<close>, the subnormal numbers), and the value is rounded to a multiple of the spacing.
  The difference of a finite float64 and 0.5 does not overflow, so no infinity arises.
  The comparisons of lines 140 and 144 are on the scores themselves and are exact.
\<close>

definition pow2 :: "int \<Rightarrow> real" where
  "pow2 k = (if 0 \<le> k then 2 ^ nat k else 1 / 2 ^ nat (- k))"

fun binade :: "nat \<Rightarrow> real \<Rightarrow> int" where
  "binade 0 a = 0"
| "binade (Suc fuel) a =
     (if 2 \<le> a then binade fuel (a / 2) + 1
      else if a < 1 then binade fuel (2 * a) - 1
      else 0)"

definition round_half_even :: "real \<Rightarrow> int" where
  "round_half_even x =
     (let f = \<lfloor>x\<rfloor>
      in if x - of_int f < 1 / 2 then f
         else if 1 / 2 < x - of_int f then f + 1
         else if even f then f else f + 1)"

definition float64_round :: "real \<Rightarrow> real" where
  "float64_round x =
     (if x = 0 then 0
      else (let ulp = pow2 (max (binade 1100 \<bar>x\<bar>) (- 1022) - 52)
            in of_int (round_half_even (x / ulp)) * ulp))"

text \<open>\<^verbatim>\<open>np.abs(auc - 0.5)\<close> as the program computes it.\<close>

definition deviation :: "real \<Rightarrow> real" where
  "deviation auc = \<bar>float64_round (auc - 0.5)\<bar>"

text \<open>Lines 129 to 146: the strict comparison of a score with the best one so far.\<close>

definition better :: "bool \<Rightarrow> bool \<Rightarrow> real \<Rightarrow> real \<Rightarrow> bool" where
  "better matching_features forward auc value_best =
     (if matching_features
      then (if forward then deviation auc < deviation value_best
            else deviation auc > deviation value_best)
      else (if forward then auc > value_best else auc < value_best))"

text \<open>
  Lines 123 to 146, over \<^verbatim>\<open>enumerate(auc_scores_i)\<close>. \<^verbatim>\<open>value_best\<close> and \<^verbatim>\<open>index_best\<close> are
  set together, so the state is one optional pair.
\<close>

fun scan_scores ::
  "bool \<Rightarrow> bool \<Rightarrow> (nat \<times> real option) list \<Rightarrow> (real \<times> nat) option \<Rightarrow> (real \<times> nat) option"
where
  "scan_scores matching_features forward [] best = best"
| "scan_scores matching_features forward ((idx, None) # rest) best =
     scan_scores matching_features forward rest best"
| "scan_scores matching_features forward ((idx, Some auc) # rest) best =
     (let first = (case best of None \<Rightarrow> (auc, idx) | Some b \<Rightarrow> b)
      in scan_scores matching_features forward rest
           (Some (if better matching_features forward auc (fst first)
                  then (auc, idx) else first)))"

definition select_best :: "bool \<Rightarrow> bool \<Rightarrow> real option list \<Rightarrow> nat option" where
  "select_best matching_features forward auc_scores_i =
     map_option snd (scan_scores matching_features forward (enumerate 0 auc_scores_i) None)"

text \<open>
  The quantity each of the four configurations makes small: \<open>better\<close> is the strict order
  on it (lemma \<open>better_objective\<close>).
\<close>

definition objective :: "bool \<Rightarrow> bool \<Rightarrow> real \<Rightarrow> real" where
  "objective matching_features forward auc =
     (if matching_features
      then (if forward then deviation auc else - deviation auc)
      else (if forward then - auc else auc))"

subsection \<open>The search loop\<close>

text \<open>
  The Score Matrix \<^verbatim>\<open>auc_scores\<close> is kept as the list of its columns, one per step, each
  of length \<^verbatim>\<open>X.shape[1]\<close>. Line 147 writes column \<open>k\<close>; a vector of one entry is
  broadcast.
\<close>

definition set_column ::
  "real option list list \<Rightarrow> nat \<Rightarrow> nat \<Rightarrow> real option list \<Rightarrow> error + real option list list"
where
  "set_column auc_scores n_rows k v =
     (if length auc_scores \<le> k then Inl IndexError
      else if length v = n_rows then Inr (auc_scores[k := v])
      else if length v = 1 then Inr (auc_scores[k := replicate n_rows (hd v)])
      else Inl ValueError)"

text \<open>
  One pass through the body of the \<^verbatim>\<open>while\<close> loop, lines 113 to 148. The entry point
  passes no \<^verbatim>\<open>random_state\<close>, so each pass draws a generator from the operating system:
  \<open>entropy k\<close> is the one drawn in pass \<open>k\<close>.
\<close>

definition selection_step ::
  "('w, 'c, 'g) env \<Rightarrow> 'c \<Rightarrow> real matrix \<Rightarrow> real list \<Rightarrow> real list option \<Rightarrow> int \<Rightarrow> int \<Rightarrow>
     bool \<Rightarrow> bool \<Rightarrow> (nat \<Rightarrow> 'g) \<Rightarrow> nat option list \<Rightarrow> real option list list \<Rightarrow> 'w \<Rightarrow>
     'w \<times> (error + nat option list \<times> real option list list)"
where
  "selection_step env clf X y sample_weight cv_steps n_jobs forward matching_features entropy
       selected_features auc_scores w =
     (case get_all_auc_scores env clf selected_features X y sample_weight cv_steps n_jobs
             forward RS_None (entropy (length selected_features)) w of
        (w', Inl e) \<Rightarrow> (w', Inl e)
      | (w', Inr auc_scores_i) \<Rightarrow>
         (case set_column auc_scores (ncols X) (length selected_features) auc_scores_i of
            Inl e \<Rightarrow> (w', Inl e)
          | Inr auc_scores' \<Rightarrow>
              (w', Inr (selected_features @ [select_best matching_features forward auc_scores_i],
                        auc_scores'))))"

lemma selection_step_measure:
  assumes "selection_step env clf X y sample_weight cv_steps n_jobs forward matching_features
             entropy selected_features auc_scores w = (w', Inr (selected', auc_scores'))"
  shows "length auc_scores' - length selected' < length auc_scores - length selected_features"
  using assms
  by (auto simp: selection_step_def set_column_def split: prod.splits sum.splits if_splits)

text \<open>The \<^verbatim>\<open>while\<close> loop of line 112, with the clamped \<open>n_features\<close>.\<close>

function selection_loop ::
  "('w, 'c, 'g) env \<Rightarrow> 'c \<Rightarrow> real matrix \<Rightarrow> real list \<Rightarrow> real list option \<Rightarrow> int \<Rightarrow> int \<Rightarrow>
     int \<Rightarrow> bool \<Rightarrow> bool \<Rightarrow> (nat \<Rightarrow> 'g) \<Rightarrow> nat option list \<Rightarrow> real option list list \<Rightarrow> 'w \<Rightarrow>
     'w \<times> (error + nat option list \<times> real option list list)"
where
  "selection_loop env clf X y sample_weight n_features cv_steps n_jobs forward matching_features
       entropy selected_features auc_scores w =
     (if int (length selected_features) = n_features then (w, Inr (selected_features, auc_scores))
      else
       (case selection_step env clf X y sample_weight cv_steps n_jobs forward matching_features
               entropy selected_features auc_scores w of
          (w', Inl e) \<Rightarrow> (w', Inl e)
        | (w', Inr (selected', auc_scores')) \<Rightarrow>
            selection_loop env clf X y sample_weight n_features cv_steps n_jobs forward
              matching_features entropy selected' auc_scores' w'))"
  by pat_completeness auto
termination
  by (relation "measure (\<lambda>(env, clf, X, y, sample_weight, n_features, cv_steps, n_jobs, forward,
          matching_features, entropy, selected_features, auc_scores, w).
            length auc_scores - length selected_features)")
     (auto dest: selection_step_measure [OF sym])

declare selection_loop.simps [simp del]

text \<open>Lines 105 to 108: \<open>n_features\<close> after the clamping.\<close>

definition clamped :: "real matrix \<Rightarrow> int \<Rightarrow> int" where
  "clamped X n_features = (if n_features > int (ncols X) then int (ncols X) else n_features)"

text \<open>
  \<^verbatim>\<open>recursive_feature_selection_roc_auc\<close>: the assertion of lines 97 to 103, the clamping
  of lines 105 to 108, and \<^verbatim>\<open>np.zeros((X.shape[1], n_features))\<close> of line 109, which raises
  on a negative dimension.
\<close>

definition recursive_feature_selection_roc_auc ::
  "('w, 'c, 'g) env \<Rightarrow> 'c \<Rightarrow> real matrix \<Rightarrow> real list \<Rightarrow> real list option \<Rightarrow> int \<Rightarrow> int \<Rightarrow>
     int \<Rightarrow> bool \<Rightarrow> bool \<Rightarrow> (nat \<Rightarrow> 'g) \<Rightarrow> 'w \<Rightarrow>
     'w \<times> (error + nat option list \<times> real option list list)"
where
  "recursive_feature_selection_roc_auc env clf X y sample_weight n_features cv_steps n_jobs
       forward matching_features entropy w =
     (if \<not> fulfilling env w clf then (w, Inl AssertionError)
      else
       (let n_features' = clamped X n_features
        in if n_features' < 0 then (w, Inl ValueError)
           else selection_loop env clf X y sample_weight n_features' cv_steps n_jobs forward
                  matching_features entropy []
                  (replicate (nat n_features') (replicate (ncols X) (Some 0))) w))"

text \<open>
  The states \<open>(selected_features, auc_scores, store)\<close> in which a run of the \<^verbatim>\<open>while\<close> loop
  evaluates its guard: the state before the first pass, and the state after every pass
  that completes. \<open>n_features\<close> is the clamped count and \<open>w0\<close> the store at the call.
\<close>

inductive search_state ::
  "('w, 'c, 'g) env \<Rightarrow> 'c \<Rightarrow> real matrix \<Rightarrow> real list \<Rightarrow> real list option \<Rightarrow> int \<Rightarrow> int \<Rightarrow>
     int \<Rightarrow> bool \<Rightarrow> bool \<Rightarrow> (nat \<Rightarrow> 'g) \<Rightarrow> 'w \<Rightarrow> nat option list \<Rightarrow> real option list list \<Rightarrow>
     'w \<Rightarrow> bool"
  for env clf X y sample_weight n_features cv_steps n_jobs forward matching_features entropy w0
where
  initial:
    "search_state env clf X y sample_weight n_features cv_steps n_jobs forward matching_features
       entropy w0 [] (replicate (nat n_features) (replicate (ncols X) (Some 0))) w0"
| pass:
    "search_state env clf X y sample_weight n_features cv_steps n_jobs forward matching_features
       entropy w0 selected_features auc_scores w \<Longrightarrow>
     int (length selected_features) \<noteq> n_features \<Longrightarrow>
     selection_step env clf X y sample_weight cv_steps n_jobs forward matching_features entropy
       selected_features auc_scores w = (w', Inr (selected', auc_scores')) \<Longrightarrow>
     search_state env clf X y sample_weight n_features cv_steps n_jobs forward matching_features
       entropy w0 selected' auc_scores' w'"

subsection \<open>A small instance of the collaborators\<close>

text \<open>
  An instance to run the functions on. The store maps an object to the number of times
  it was fitted and a threshold. \<open>toy_fit\<close> works in place and returns the object itself,
  as scikit-learn does: the threshold becomes the mean of the first training column.
  \<open>toy_predict_proba\<close> gives class 1 the probability 1 above the threshold and 0
  otherwise. \<open>toy_roc_auc_score\<close> is the AUC of the unweighted pairs (positive, negative),
  a tie counting one half. \<open>toy_split\<close> deals the rows to the folds in turn, starting at
  the fold the generator names.
\<close>

type_synonym toy_store = "nat \<Rightarrow> nat \<times> real"

definition toy_mean :: "real list \<Rightarrow> real" where
  "toy_mean xs = (if xs = [] then 0 else sum_list xs / real (length xs))"

definition toy_fit ::
  "toy_store \<Rightarrow> nat \<Rightarrow> real matrix \<Rightarrow> real list \<Rightarrow> real list option \<Rightarrow> toy_store \<times> (error + nat)"
where
  "toy_fit w c X_train y_train sw_train =
     (if ncols X_train = 0 then (w, Inl ValueError)
      else (w(c := (Suc (fst (w c)), toy_mean (map hd (rows X_train)))), Inr c))"

definition toy_predict_proba :: "toy_store \<Rightarrow> nat \<Rightarrow> real matrix \<Rightarrow> error + real matrix" where
  "toy_predict_proba w c X_test =
     (if ncols X_test = 0 then Inl ValueError
      else Inr \<lparr>ncols = 2,
                rows = map (\<lambda>r. if snd (w c) < hd r then [0, 1] else [1, 0]) (rows X_test)\<rparr>)"

definition toy_pairs :: "real list \<Rightarrow> real list \<Rightarrow> real" where
  "toy_pairs pos neg =
     sum_list (map (\<lambda>p. sum_list (map (\<lambda>n. if n < p then 1 else if n = p then 1 / 2 else 0) neg))
                 pos)"

definition toy_roc_auc_score ::
  "real list \<Rightarrow> real list \<Rightarrow> real list option \<Rightarrow> error + real option"
where
  "toy_roc_auc_score y_true y_score sample_weight =
     (let pos = map snd (filter (\<lambda>(t, s). t = 1) (zip y_true y_score));
          neg = map snd (filter (\<lambda>(t, s). t \<noteq> 1) (zip y_true y_score))
      in if length y_score = length y_true \<and> pos \<noteq> [] \<and> neg \<noteq> []
            \<and> (case sample_weight of None \<Rightarrow> True | Some sw \<Rightarrow> length sw = length y_true)
         then Inr (Some (toy_pairs pos neg / real (length pos * length neg)))
         else Inl ValueError)"

definition toy_RandomState :: "int \<Rightarrow> error + nat" where
  "toy_RandomState seed = (if 0 \<le> seed then Inr (nat seed) else Inl ValueError)"

definition toy_split ::
  "nat \<Rightarrow> nat \<Rightarrow> real matrix \<Rightarrow> real list \<Rightarrow> error + (nat list \<times> nat list) list"
where
  "toy_split n_splits rng X y =
     (if length (rows X) < n_splits then Inl ValueError
      else Inr (map (\<lambda>j. (filter (\<lambda>i. (i + rng) mod n_splits \<noteq> j) [0..<length (rows X)],
                           filter (\<lambda>i. (i + rng) mod n_splits = j) [0..<length (rows X)]))
                  [0..<n_splits]))"

definition toy_env :: "(toy_store, nat, nat) env" where
  "toy_env =
     \<lparr>fulfilling = (\<lambda>w c. True), fit = toy_fit, predict_proba = toy_predict_proba,
      roc_auc_score = toy_roc_auc_score, RandomState = toy_RandomState,
      StratifiedKFold_split = toy_split\<rparr>"

text \<open>
  Four samples, two of each class, and two features; a store in which no object has
  been fitted.
\<close>

definition toy_X :: "real matrix" where
  "toy_X = \<lparr>ncols = 2, rows = [[0, 0], [0, 0], [1, 5], [5, 1]]\<rparr>"

definition toy_y :: "real list" where
  "toy_y = [0, 0, 1, 1]"

definition toy_store0 :: toy_store where
  "toy_store0 = (\<lambda>c. (0, 0))"

section \<open>Properties\<close>

subsection \<open>The selection policy\<close>

lemma better_objective:
  "better mf fw a b \<longleftrightarrow> objective mf fw a < objective mf fw b"
  by (simp add: better_def objective_def)

lemma scan_scores_from_best:
  assumes "scan_scores mf fw (enumerate k xs) (Some (vb, ib)) = Some (v, i)"
  shows "objective mf fw v \<le> objective mf fw vb
       \<and> (\<forall>j<length xs. \<forall>u. xs ! j = Some u \<longrightarrow> objective mf fw v \<le> objective mf fw u)
       \<and> ((v, i) = (vb, ib)
          \<or> (\<exists>p<length xs. i = k + p \<and> xs ! p = Some v
              \<and> objective mf fw v < objective mf fw vb
              \<and> (\<forall>j<p. \<forall>u. xs ! j = Some u \<longrightarrow> objective mf fw v < objective mf fw u)))"
  using assms
proof (induction xs arbitrary: k vb ib)
  case Nil
  then show ?case by simp
next
  case (Cons x xs)
  let ?f = "objective mf fw"
  show ?case
  proof (cases x)
    case None
    with Cons.prems have "scan_scores mf fw (enumerate (Suc k) xs) (Some (vb, ib)) = Some (v, i)"
      by simp
    from Cons.IH [OF this]
    have a: "?f v \<le> ?f vb"
      and b: "\<forall>j<length xs. \<forall>u. xs ! j = Some u \<longrightarrow> ?f v \<le> ?f u"
      and c: "(v, i) = (vb, ib) \<or> (\<exists>p<length xs. i = Suc k + p \<and> xs ! p = Some v
              \<and> ?f v < ?f vb \<and> (\<forall>j<p. \<forall>u. xs ! j = Some u \<longrightarrow> ?f v < ?f u))"
      by blast+
    have b': "\<forall>j<length (x # xs). \<forall>u. (x # xs) ! j = Some u \<longrightarrow> ?f v \<le> ?f u"
      using b None by (auto simp: less_Suc_eq_0_disj)
    from c have c': "(v, i) = (vb, ib) \<or> (\<exists>p<length (x # xs). i = k + p \<and> (x # xs) ! p = Some v
              \<and> ?f v < ?f vb \<and> (\<forall>j<p. \<forall>u. (x # xs) ! j = Some u \<longrightarrow> ?f v < ?f u))"
    proof
      assume "(v, i) = (vb, ib)" then show ?thesis by blast
    next
      assume "\<exists>p<length xs. i = Suc k + p \<and> xs ! p = Some v
              \<and> ?f v < ?f vb \<and> (\<forall>j<p. \<forall>u. xs ! j = Some u \<longrightarrow> ?f v < ?f u)"
      then obtain p where p: "p < length xs" "i = Suc k + p" "xs ! p = Some v" "?f v < ?f vb"
        "\<forall>j<p. \<forall>u. xs ! j = Some u \<longrightarrow> ?f v < ?f u" by blast
      have "\<forall>j<Suc p. \<forall>u. (x # xs) ! j = Some u \<longrightarrow> ?f v < ?f u"
        using p(5) None by (auto simp: less_Suc_eq_0_disj)
      with p have "Suc p < length (x # xs) \<and> i = k + Suc p \<and> (x # xs) ! Suc p = Some v
              \<and> ?f v < ?f vb \<and> (\<forall>j<Suc p. \<forall>u. (x # xs) ! j = Some u \<longrightarrow> ?f v < ?f u)"
        by simp
      then show ?thesis by blast
    qed
    from a b' c' show ?thesis by blast
  next
    case (Some a)
    show ?thesis
    proof (cases "better mf fw a vb")
      case True
      then have lt: "?f a < ?f vb" by (simp add: better_objective)
      from True Cons.prems Some
      have "scan_scores mf fw (enumerate (Suc k) xs) (Some (a, k)) = Some (v, i)"
        by simp
      from Cons.IH [OF this]
      have a: "?f v \<le> ?f a"
        and b: "\<forall>j<length xs. \<forall>u. xs ! j = Some u \<longrightarrow> ?f v \<le> ?f u"
        and c: "(v, i) = (a, k) \<or> (\<exists>p<length xs. i = Suc k + p \<and> xs ! p = Some v
              \<and> ?f v < ?f a \<and> (\<forall>j<p. \<forall>u. xs ! j = Some u \<longrightarrow> ?f v < ?f u))"
        by blast+
      have a': "?f v \<le> ?f vb" using a lt by linarith
      have b': "\<forall>j<length (x # xs). \<forall>u. (x # xs) ! j = Some u \<longrightarrow> ?f v \<le> ?f u"
        using a b Some by (auto simp: less_Suc_eq_0_disj)
      from c have c': "\<exists>p<length (x # xs). i = k + p \<and> (x # xs) ! p = Some v
              \<and> ?f v < ?f vb \<and> (\<forall>j<p. \<forall>u. (x # xs) ! j = Some u \<longrightarrow> ?f v < ?f u)"
      proof
        assume "(v, i) = (a, k)"
        then have "0 < length (x # xs) \<and> i = k + 0 \<and> (x # xs) ! 0 = Some v
              \<and> ?f v < ?f vb \<and> (\<forall>j<0. \<forall>u. (x # xs) ! j = Some u \<longrightarrow> ?f v < ?f u)"
          using Some lt by simp
        then show ?thesis by blast
      next
        assume "\<exists>p<length xs. i = Suc k + p \<and> xs ! p = Some v
              \<and> ?f v < ?f a \<and> (\<forall>j<p. \<forall>u. xs ! j = Some u \<longrightarrow> ?f v < ?f u)"
        then obtain p where p: "p < length xs" "i = Suc k + p" "xs ! p = Some v" "?f v < ?f a"
          "\<forall>j<p. \<forall>u. xs ! j = Some u \<longrightarrow> ?f v < ?f u" by blast
        have "\<forall>j<Suc p. \<forall>u. (x # xs) ! j = Some u \<longrightarrow> ?f v < ?f u"
          using p(4,5) Some by (auto simp: less_Suc_eq_0_disj)
        with p lt have "Suc p < length (x # xs) \<and> i = k + Suc p \<and> (x # xs) ! Suc p = Some v
              \<and> ?f v < ?f vb \<and> (\<forall>j<Suc p. \<forall>u. (x # xs) ! j = Some u \<longrightarrow> ?f v < ?f u)"
          by simp
        then show ?thesis by blast
      qed
      from a' b' c' show ?thesis by blast
    next
      case False
      then have ge: "?f vb \<le> ?f a" by (simp add: better_objective)
      from False Cons.prems Some
      have "scan_scores mf fw (enumerate (Suc k) xs) (Some (vb, ib)) = Some (v, i)"
        by simp
      from Cons.IH [OF this]
      have a: "?f v \<le> ?f vb"
        and b: "\<forall>j<length xs. \<forall>u. xs ! j = Some u \<longrightarrow> ?f v \<le> ?f u"
        and c: "(v, i) = (vb, ib) \<or> (\<exists>p<length xs. i = Suc k + p \<and> xs ! p = Some v
              \<and> ?f v < ?f vb \<and> (\<forall>j<p. \<forall>u. xs ! j = Some u \<longrightarrow> ?f v < ?f u))"
        by blast+
      have b': "\<forall>j<length (x # xs). \<forall>u. (x # xs) ! j = Some u \<longrightarrow> ?f v \<le> ?f u"
        using a b ge Some by (auto simp: less_Suc_eq_0_disj)
      from c have c': "(v, i) = (vb, ib) \<or> (\<exists>p<length (x # xs). i = k + p \<and> (x # xs) ! p = Some v
              \<and> ?f v < ?f vb \<and> (\<forall>j<p. \<forall>u. (x # xs) ! j = Some u \<longrightarrow> ?f v < ?f u))"
      proof
        assume "(v, i) = (vb, ib)" then show ?thesis by blast
      next
        assume "\<exists>p<length xs. i = Suc k + p \<and> xs ! p = Some v
              \<and> ?f v < ?f vb \<and> (\<forall>j<p. \<forall>u. xs ! j = Some u \<longrightarrow> ?f v < ?f u)"
        then obtain p where p: "p < length xs" "i = Suc k + p" "xs ! p = Some v" "?f v < ?f vb"
          "\<forall>j<p. \<forall>u. xs ! j = Some u \<longrightarrow> ?f v < ?f u" by blast
        have "\<forall>j<Suc p. \<forall>u. (x # xs) ! j = Some u \<longrightarrow> ?f v < ?f u"
          using p(4,5) ge Some by (auto simp: less_Suc_eq_0_disj)
        with p have "Suc p < length (x # xs) \<and> i = k + Suc p \<and> (x # xs) ! Suc p = Some v
              \<and> ?f v < ?f vb \<and> (\<forall>j<Suc p. \<forall>u. (x # xs) ! j = Some u \<longrightarrow> ?f v < ?f u)"
          by simp
        then show ?thesis by blast
      qed
      from a b' c' show ?thesis by blast
    qed
  qed
qed

lemma scan_scores_keeps_Some:
  "\<exists>v i. scan_scores mf fw ps (Some b) = Some (v, i)"
proof (induction ps arbitrary: b)
  case Nil
  then show ?case by (cases b) simp
next
  case (Cons q ps)
  obtain idx x where q: "q = (idx, x)" by (cases q)
  show ?case
  proof (cases x)
    case None
    with q Cons.IH [of b] show ?thesis by simp
  next
    case (Some a)
    with q Cons.IH [of "if better mf fw a (fst b) then (a, idx) else b"] show ?thesis by simp
  qed
qed

lemma scan_scores_from_None:
  assumes "\<exists>j<length xs. xs ! j \<noteq> None"
  shows "\<exists>v p. scan_scores mf fw (enumerate k xs) None = Some (v, k + p)
       \<and> p < length xs \<and> xs ! p = Some v
       \<and> (\<forall>j<length xs. \<forall>u. xs ! j = Some u \<longrightarrow> objective mf fw v \<le> objective mf fw u)
       \<and> (\<forall>j<p. \<forall>u. xs ! j = Some u \<longrightarrow> objective mf fw v < objective mf fw u)"
  using assms
proof (induction xs arbitrary: k)
  case Nil
  then show ?case by simp
next
  case (Cons x xs)
  let ?f = "objective mf fw"
  show ?case
  proof (cases x)
    case None
    with Cons.prems have "\<exists>j<length xs. xs ! j \<noteq> None"
      by (auto simp: less_Suc_eq_0_disj)
    from Cons.IH [OF this, of "Suc k"] obtain v p where
      p: "scan_scores mf fw (enumerate (Suc k) xs) None = Some (v, Suc k + p)"
        "p < length xs" "xs ! p = Some v"
        "\<forall>j<length xs. \<forall>u. xs ! j = Some u \<longrightarrow> ?f v \<le> ?f u"
        "\<forall>j<p. \<forall>u. xs ! j = Some u \<longrightarrow> ?f v < ?f u" by blast
    have "scan_scores mf fw (enumerate k (x # xs)) None = Some (v, k + Suc p)"
      using p(1) None by simp
    moreover have "\<forall>j<length (x # xs). \<forall>u. (x # xs) ! j = Some u \<longrightarrow> ?f v \<le> ?f u"
      using p(4) None by (auto simp: less_Suc_eq_0_disj)
    moreover have "\<forall>j<Suc p. \<forall>u. (x # xs) ! j = Some u \<longrightarrow> ?f v < ?f u"
      using p(5) None by (auto simp: less_Suc_eq_0_disj)
    moreover have "Suc p < length (x # xs)" "(x # xs) ! Suc p = Some v"
      using p(2,3) by simp_all
    ultimately show ?thesis by blast
  next
    case (Some a)
    have eq: "scan_scores mf fw (enumerate k (x # xs)) None
            = scan_scores mf fw (enumerate (Suc k) xs) (Some (a, k))"
      using Some by (simp add: better_objective)
    obtain v i where r: "scan_scores mf fw (enumerate (Suc k) xs) (Some (a, k)) = Some (v, i)"
      using scan_scores_keeps_Some by blast
    from scan_scores_from_best [OF r]
    have a: "?f v \<le> ?f a"
      and b: "\<forall>j<length xs. \<forall>u. xs ! j = Some u \<longrightarrow> ?f v \<le> ?f u"
      and c: "(v, i) = (a, k) \<or> (\<exists>p<length xs. i = Suc k + p \<and> xs ! p = Some v
              \<and> ?f v < ?f a \<and> (\<forall>j<p. \<forall>u. xs ! j = Some u \<longrightarrow> ?f v < ?f u))"
      by blast+
    have b': "\<forall>j<length (x # xs). \<forall>u. (x # xs) ! j = Some u \<longrightarrow> ?f v \<le> ?f u"
      using a b Some by (auto simp: less_Suc_eq_0_disj)
    from c show ?thesis
    proof
      assume "(v, i) = (a, k)"
      then have "scan_scores mf fw (enumerate k (x # xs)) None = Some (v, k + 0)
         \<and> 0 < length (x # xs) \<and> (x # xs) ! 0 = Some v"
        using eq r Some by simp
      moreover have "\<forall>j<0::nat. \<forall>u. (x # xs) ! j = Some u \<longrightarrow> ?f v < ?f u" by simp
      ultimately show ?thesis using b' by blast
    next
      assume "\<exists>p<length xs. i = Suc k + p \<and> xs ! p = Some v
              \<and> ?f v < ?f a \<and> (\<forall>j<p. \<forall>u. xs ! j = Some u \<longrightarrow> ?f v < ?f u)"
      then obtain p where p: "p < length xs" "i = Suc k + p" "xs ! p = Some v" "?f v < ?f a"
        "\<forall>j<p. \<forall>u. xs ! j = Some u \<longrightarrow> ?f v < ?f u" by blast
      have "\<forall>j<Suc p. \<forall>u. (x # xs) ! j = Some u \<longrightarrow> ?f v < ?f u"
        using p(4,5) Some by (auto simp: less_Suc_eq_0_disj)
      moreover have "scan_scores mf fw (enumerate k (x # xs)) None = Some (v, k + Suc p)"
        using eq r p(2) by simp
      moreover have "Suc p < length (x # xs)" "(x # xs) ! Suc p = Some v"
        using p(1,3) by simp_all
      ultimately show ?thesis using b' by blast
    qed
  qed
qed

lemma scan_scores_all_None:
  "list_all (\<lambda>x. x = None) xs \<Longrightarrow> scan_scores mf fw (enumerate k xs) None = None"
  by (induction xs arbitrary: k) auto

lemma select_best_argmin:
  assumes "\<exists>j<length scores. scores ! j \<noteq> None"
  shows "\<exists>v i. select_best mf fw scores = Some i \<and> i < length scores \<and> scores ! i = Some v
       \<and> (\<forall>j<length scores. \<forall>u. scores ! j = Some u \<longrightarrow> objective mf fw v \<le> objective mf fw u)
       \<and> (\<forall>j<i. \<forall>u. scores ! j = Some u \<longrightarrow> objective mf fw v < objective mf fw u)"
  using scan_scores_from_None [OF assms, of mf fw 0]
  by (auto simp: select_best_def)

lemma select_best_Some:
  assumes "select_best mf fw scores = Some i"
  shows "i < length scores \<and> scores ! i \<noteq> None"
proof (cases "\<exists>j<length scores. scores ! j \<noteq> None")
  case True
  from select_best_argmin [OF this, of mf fw] assms show ?thesis by auto
next
  case False
  then have "list_all (\<lambda>x. x = None) scores"
    by (auto simp: list_all_length)
  from scan_scores_all_None [OF this, of mf fw 0] assms show ?thesis
    by (simp add: select_best_def)
qed

text \<open>
  Claim C4 says that the index returned optimizes \<open>|AUC - 0.5|\<close> over the finite entries.
  For the exact distance it need not. The two scores below are the float64 numbers
  nearest to 0.1 and to 0.9; the second is farther from 0.5, but both differences round to
  the same float64, so with \<open>matching_features\<close> and backward elimination (greatest
  distance) the strict comparison of line 135 keeps index 0.
\<close>

theorem selection_policy_exact_counterexample:
  "float64_round (1 / 10) = 3602879701896397 / 36028797018963968
   \<and> float64_round (9 / 10) = 8106479329266893 / 9007199254740992
   \<and> select_best True False
        [Some (3602879701896397 / 36028797018963968),
         Some (8106479329266893 / 9007199254740992)] = Some 0
   \<and> \<bar>3602879701896397 / 36028797018963968 - 1 / 2 :: real\<bar>
       < \<bar>8106479329266893 / 9007199254740992 - 1 / 2\<bar>"
  by code_simp

text \<open>
  Claim C4, amended. For a score array with at least one finite entry and every setting of
  \<open>matching_features\<close> and \<open>forward\<close>, the selection policy returns an index \<open>i\<close> with a
  finite score \<open>v\<close> that is optimal among all finite entries for the configured objective,
  the distance from 0.5 being the float64 value of \<^verbatim>\<open>np.abs(auc - 0.5)\<close> that the program
  compares (\<open>deviation\<close>): least distance for (true, true), greatest distance for
  (true, false), greatest AUC for (false, true), least AUC for (false, false). Every
  finite entry at a lower index is strictly worse: among the optimal entries the first is
  returned.
\<close>

theorem selection_policy_optimal:
  assumes "\<exists>j<length scores. scores ! j \<noteq> None"
  shows "\<exists>i v. select_best matching_features forward scores = Some i
       \<and> i < length scores \<and> scores ! i = Some v
       \<and> (\<forall>j<length scores. \<forall>u. scores ! j = Some u \<longrightarrow>
            (if matching_features
             then (if forward then deviation v \<le> deviation u else deviation u \<le> deviation v)
             else (if forward then u \<le> v else v \<le> u)))
       \<and> (\<forall>j<i. \<forall>u. scores ! j = Some u \<longrightarrow>
            (if matching_features
             then (if forward then deviation v < deviation u else deviation u < deviation v)
             else (if forward then u < v else v < u)))"
proof -
  from select_best_argmin [OF assms, of matching_features forward]
  obtain v i where r: "select_best matching_features forward scores = Some i"
    "i < length scores" "scores ! i = Some v"
    "\<forall>j<length scores. \<forall>u. scores ! j = Some u \<longrightarrow>
        objective matching_features forward v \<le> objective matching_features forward u"
    "\<forall>j<i. \<forall>u. scores ! j = Some u \<longrightarrow>
        objective matching_features forward v < objective matching_features forward u"
    by blast
  have le: "\<forall>j<length scores. \<forall>u. scores ! j = Some u \<longrightarrow>
            (if matching_features
             then (if forward then deviation v \<le> deviation u else deviation u \<le> deviation v)
             else (if forward then u \<le> v else v \<le> u))"
    using r(4) by (cases matching_features; cases forward) (simp_all add: objective_def)
  have lt: "\<forall>j<i. \<forall>u. scores ! j = Some u \<longrightarrow>
            (if matching_features
             then (if forward then deviation v < deviation u else deviation u < deviation v)
             else (if forward then u < v else v < u))"
    using r(5) by (cases matching_features; cases forward) (simp_all add: objective_def)
  from r(1,2,3) le lt show ?thesis by blast
qed

theorem selection_policy_optimal_witness:
  "(\<exists>j<length [None, Some (1 / 4), Some (3 / 4), Some (1 / 8 :: real)].
       [None, Some (1 / 4), Some (3 / 4), Some (1 / 8 :: real)] ! j \<noteq> None)
   \<and> deviation (1 / 4) = 1 / 4 \<and> deviation (3 / 4) = 1 / 4 \<and> deviation (1 / 8) = 3 / 8
   \<and> select_best True True [None, Some (1 / 4), Some (3 / 4), Some (1 / 8)] = Some 1
   \<and> select_best True False [None, Some (1 / 4), Some (3 / 4), Some (1 / 8)] = Some 3
   \<and> select_best False True [None, Some (1 / 4), Some (3 / 4), Some (1 / 8)] = Some 2
   \<and> select_best False False [None, Some (1 / 4), Some (3 / 4), Some (1 / 8)] = Some 3"
proof -
  let ?s = "[None, Some (1 / 4), Some (3 / 4), Some (1 / 8 :: real)]"
  have h: "\<exists>j<length ?s. ?s ! j \<noteq> None"
    by (rule exI [of _ 1]) simp
  have d: "deviation (1 / 4) = 1 / 4" "deviation (3 / 4) = 1 / 4" "deviation (1 / 8) = 3 / 8"
    by code_simp+
  have e: "select_best True True ?s = Some 1" "select_best True False ?s = Some 3"
    "select_best False True ?s = Some 2" "select_best False False ?s = Some 3"
    by code_simp+
  from selection_policy_optimal [OF h, of True True] h d e show ?thesis by blast
qed

subsection \<open>The fold count\<close>

text \<open>
  Claim C6. Whatever the dataset, a fold count \<open>cv_steps\<close> below 2 makes the evaluation
  stage raise \<^verbatim>\<open>ValueError\<close>, with the store as it was: no split plan is built and no
  candidate is scored. (The generator of line 265 and the index array of line 266 come
  before the check, hence the two further assumptions; the entry point passes no seed.)
\<close>

theorem cv_steps_below_two_raises:
  assumes "cv_steps < 2"
    and "make_random_state env random_state entropy = Inr rng"
    and "list_all (\<lambda>s. s \<noteq> None) selected_features"
  shows "get_all_auc_scores env clf selected_features X y sample_weight cv_steps n_jobs forward
           random_state entropy w = (w, Inl ValueError)"
  using assms by (simp add: get_all_auc_scores_def)

theorem cv_steps_below_two_raises_witness:
  "(1::int) < 2 \<and> make_random_state toy_env RS_None 0 = Inr 0
   \<and> list_all (\<lambda>s. s \<noteq> None) ([] :: nat option list)
   \<and> get_all_auc_scores toy_env 0 [] toy_X toy_y None 1 2 True RS_None 0 toy_store0
       = (toy_store0, Inl ValueError)"
proof -
  have a: "(1::int) < 2" by simp
  have b: "make_random_state toy_env RS_None 0 = Inr 0" by (simp add: make_random_state_def)
  have c: "list_all (\<lambda>s. s \<noteq> None) ([] :: nat option list)" by simp
  from cv_steps_below_two_raises [OF a b c] a b c show ?thesis by blast
qed

subsection \<open>A negative \<open>n_features\<close>\<close>

text \<open>
  Claim C9 says that the search does not terminate for a negative \<open>n_features\<close>. It does:
  the run below returns, with \<^verbatim>\<open>ValueError\<close>.
\<close>

theorem negative_n_features_counterexample:
  "recursive_feature_selection_roc_auc toy_env 0 toy_X toy_y None (- 1) 2 2 True False (\<lambda>k. 0)
     toy_store0 = (toy_store0, Inl ValueError)"
  by (simp add: recursive_feature_selection_roc_auc_def clamped_def toy_env_def toy_X_def)

text \<open>
  Claim C9, amended. For every negative \<open>n_features\<close> the call returns at once: line 109,
  \<^verbatim>\<open>np.zeros((X.shape[1], n_features))\<close>, raises \<^verbatim>\<open>ValueError\<close> before the loop is entered
  (and the assertion of line 102 raises first when the classifier check fails); the store
  is untouched. No precondition on \<open>n_features\<close> is needed for termination:
  \<open>selection_loop\<close> is a total function, each pass raising or writing a column that the
  Score Matrix must have.
\<close>

theorem negative_n_features_raises:
  assumes "n_features < 0"
  shows "recursive_feature_selection_roc_auc env clf X y sample_weight n_features cv_steps n_jobs
           forward matching_features entropy w
         = (w, Inl (if fulfilling env w clf then ValueError else AssertionError))"
  using assms by (simp add: recursive_feature_selection_roc_auc_def clamped_def)

theorem negative_n_features_raises_witness:
  "(- 3 :: int) < 0
   \<and> recursive_feature_selection_roc_auc toy_env 0 toy_X toy_y None (- 3) 2 1 True True (\<lambda>k. 0)
       toy_store0 = (toy_store0, Inl ValueError)"
proof -
  have a: "(- 3 :: int) < 0" by simp
  from negative_n_features_raises [OF a, where env = toy_env and w = toy_store0 and clf = 0] a
  show ?thesis
    by (simp add: toy_env_def)
qed

subsection \<open>The sequential branch\<close>

lemma process_args_fst:
  "process_args X forward selected tf fs = Inr args \<Longrightarrow> map fst args = fs"
  by (induction fs arbitrary: args) (auto split: sum.splits)

lemma sequential_loop_first_assignment:
  "args \<noteq> [] \<Longrightarrow> \<exists>e. snd (sequential_loop env clf cv_indices y sample_weight [] args w) = Inl e"
  by (cases args) (auto simp: setitem_def split: prod.splits sum.splits)

lemma get_all_sequential_error:
  assumes "n_jobs \<le> 1"
    and "test_features_of X (map the selected_features) \<noteq> []"
  shows "\<exists>e. snd (get_all_auc_scores env clf selected_features X y sample_weight cv_steps n_jobs
                 forward random_state entropy w) = Inl e"
proof -
  have "args \<noteq> []"
    if "process_args X forward (map the selected_features)
          (test_features_of X (map the selected_features))
          (test_features_of X (map the selected_features)) = Inr args" for args
    using process_args_fst [OF that] assms(2) by auto
  then show ?thesis
    using assms(1)
    by (auto simp: get_all_auc_scores_def Let_def sequential_loop_first_assignment
             split: sum.splits)
qed

text \<open>
  Claim C2 (the code differs). With \<open>n_jobs \<le> 1\<close> and at least one feature left to
  test, the evaluation stage never returns a score array: line 319 rebinds \<^verbatim>\<open>auc_scores\<close> to
  the empty list, so the first assignment of line 327 raises \<^verbatim>\<open>IndexError\<close> (unless the
  scorer has raised before).
\<close>

theorem sequential_branch_raises:
  assumes "n_jobs \<le> 1"
    and "test_features_of X (map the selected_features) \<noteq> []"
  shows "\<exists>e. snd (get_all_auc_scores env clf selected_features X y sample_weight cv_steps n_jobs
                 forward random_state entropy w) = Inl e"
  using assms by (rule get_all_sequential_error)

theorem sequential_branch_raises_witness:
  "(1::int) \<le> 1 \<and> test_features_of toy_X (map the []) \<noteq> []
   \<and> snd (get_all_auc_scores toy_env 0 [] toy_X toy_y None 2 1 True RS_None 0 toy_store0)
       = Inl IndexError"
proof -
  have a: "(1::int) \<le> 1" by simp
  have b: "test_features_of toy_X (map the []) \<noteq> []" by code_simp
  have c: "snd (get_all_auc_scores toy_env 0 [] toy_X toy_y None 2 1 True RS_None 0 toy_store0)
       = Inl IndexError" by code_simp
  from sequential_branch_raises [OF a b, of toy_env 0 toy_y None 2 True RS_None 0 toy_store0] a b c
  show ?thesis by blast
qed

lemma test_features_of_Nil: "test_features_of X [] = [0..<ncols X]"
  by (simp add: test_features_of_def)

lemma search_sequential_error:
  assumes "n_jobs \<le> 1" and "0 < n_features" and "0 < ncols X"
  shows "\<exists>e. snd (recursive_feature_selection_roc_auc env clf X y sample_weight n_features
                 cv_steps n_jobs forward matching_features entropy w) = Inl e"
proof -
  define n where "n = clamped X n_features"
  have n: "0 < n" using assms(2,3) by (simp add: n_def clamped_def)
  have tf: "test_features_of X (map the []) \<noteq> []"
    using assms(3) by (simp add: test_features_of_Nil)
  from get_all_sequential_error [OF assms(1) tf, where env = env and clf = clf and y = y
      and sample_weight = sample_weight and cv_steps = cv_steps and forward = forward
      and random_state = RS_None and entropy = "entropy 0" and w = w]
  obtain e where e: "snd (get_all_auc_scores env clf [] X y sample_weight cv_steps n_jobs forward
                 RS_None (entropy 0) w) = Inl e" by blast
  have step: "\<exists>e. snd (selection_step env clf X y sample_weight cv_steps n_jobs forward
                 matching_features entropy [] M w) = Inl e" for M
    using e by (auto simp: selection_step_def split: prod.splits sum.splits)
  have loop: "\<exists>e. snd (selection_loop env clf X y sample_weight n cv_steps n_jobs forward
                 matching_features entropy [] M w) = Inl e" for M
    using step [of M] n
    by (subst selection_loop.simps) (auto split: prod.splits sum.splits)
  show ?thesis
    using loop n by (auto simp: recursive_feature_selection_roc_auc_def Let_def n_def)
qed

text \<open>
  Claim C5 (the code differs). A search with \<open>n_jobs \<le> 1\<close> that asks for at least one
  feature of a dataset with at least one column always ends in an exception, whereas the
  same search with \<open>n_jobs > 1\<close> can return: the two branches are not equivalent.
\<close>

theorem sequential_search_raises:
  assumes "n_jobs \<le> 1" and "0 < n_features" and "0 < ncols X"
  shows "\<exists>e. snd (recursive_feature_selection_roc_auc env clf X y sample_weight n_features
                 cv_steps n_jobs forward matching_features entropy w) = Inl e"
  using assms by (rule search_sequential_error)

theorem sequential_search_raises_witness:
  "(1::int) \<le> 1 \<and> (0::int) < 5 \<and> 0 < ncols toy_X
   \<and> snd (recursive_feature_selection_roc_auc toy_env 0 toy_X toy_y None 5 2 1 True False
           (\<lambda>k. 0) toy_store0) = Inl IndexError
   \<and> snd (recursive_feature_selection_roc_auc toy_env 0 toy_X toy_y None 5 2 2 True False
           (\<lambda>k. 0) toy_store0)
       = Inr ([Some 0, Some 1], [[Some (3 / 4), Some (1 / 2)], [None, Some (3 / 4)]])"
proof -
  have a: "(1::int) \<le> 1" and b: "(0::int) < 5" by simp_all
  have c: "0 < ncols toy_X" by code_simp
  have d: "snd (recursive_feature_selection_roc_auc toy_env 0 toy_X toy_y None 5 2 1 True False
           (\<lambda>k. 0) toy_store0) = Inl IndexError" by code_simp
  have e: "snd (recursive_feature_selection_roc_auc toy_env 0 toy_X toy_y None 5 2 2 True False
           (\<lambda>k. 0) toy_store0)
       = Inr ([Some 0, Some 1], [[Some (3 / 4), Some (1 / 2)], [None, Some (3 / 4)]])"
    by code_simp
  from sequential_search_raises [OF a b c, of toy_env 0 toy_y None 2 True False "\<lambda>k. 0" toy_store0]
    a b c d e
  show ?thesis by blast
qed

subsection \<open>The prediction vector of the scorer\<close>

lemma cv_loop_vars:
  assumes "cv_loop env cv_indices X y sample_weight clf vars w = (w', Inr (clf', vars'))"
  shows "if cv_indices = [] then vars' = vars
         else \<exists>X_test sw_test. vars' = Some (snd (last cv_indices), X_test, sw_test)"
  using assms
proof (induction cv_indices arbitrary: clf vars w)
  case Nil
  then show ?case by simp
next
  case (Cons fold cv_indices)
  obtain train_idx test_idx where f: "fold = (train_idx, test_idx)" by (cases fold)
  from Cons.prems f obtain X_test sw_test clf1 w1 where
    r: "cv_loop env cv_indices X y sample_weight clf1 (Some (test_idx, X_test, sw_test)) w1
          = (w', Inr (clf', vars'))"
    by (auto split: sum.splits prod.splits)
  from Cons.IH [OF r] f show ?case by (auto split: if_splits)
qed

lemma fold_update_pairs:
  "length (fold (\<lambda>(i, v) b. b[i := v]) ps a) = length a
   \<and> (i \<notin> fst ` set ps \<longrightarrow> fold (\<lambda>(i, v) b. b[i := v]) ps a ! i = a ! i)"
  by (induction ps arbitrary: a) (auto split: prod.splits)

lemma fold_update_const:
  "length (fold (\<lambda>i b. b[i := c]) idx a) = length a
   \<and> (i \<notin> set idx \<longrightarrow> fold (\<lambda>i b. b[i := c]) idx a ! i = a ! i)"
  by (induction idx arbitrary: a) auto

lemma put_elems_outside:
  assumes "put_elems a idx vs = Inr b"
  shows "length b = length a \<and> (i \<notin> set idx \<longrightarrow> b ! i = a ! i)"
proof -
  have "i \<notin> set idx \<Longrightarrow> i \<notin> fst ` set (zip idx vs)"
    by (auto dest: set_zip_leftD)
  then show ?thesis
    using assms fold_update_pairs [of "zip idx vs" a i] fold_update_const [of "hd vs" idx a i]
    by (auto simp: put_elems_def split: if_splits)
qed

text \<open>
  Claim C1 (the code differs). Whenever the scorer gets as far as the AUC, the prediction
  vector it hands over is zero at every row outside the test rows of the last fold: line
  207 stands after the loop, so only the last fold's predictions are written and the
  earlier folds contribute nothing but their fits. In the instance that follows the
  theorem, the classifier fitted on the first fold gives row 2 the prediction 1 (the
  scorer run on that fold alone writes it), yet with both folds row 2 keeps its 0 and the
  score is 1/2, where the vector with every fold's predictions has the AUC 3/4.
\<close>

theorem only_last_fold_predicted:
  assumes "snd (single_y_pred env clf cv_indices X y sample_weight w) = Inr (y_pred, sw_test)"
  shows "cv_indices \<noteq> [] \<and> length y_pred = length y
       \<and> (\<forall>i<length y. i \<notin> set (snd (last cv_indices)) \<longrightarrow> y_pred ! i = 0)"
proof -
  obtain w' r where c: "cv_loop env cv_indices X y sample_weight clf None w = (w', r)"
    by (cases "cv_loop env cv_indices X y sample_weight clf None w")
  from assms c obtain clf' test_idx X_test swt p1 where
    r: "r = Inr (clf', Some (test_idx, X_test, swt))"
    and p: "put_elems (replicate (length y) 0) test_idx p1 = Inr y_pred"
    by (auto simp: single_y_pred_def split: sum.splits option.splits prod.splits)
  from cv_loop_vars [OF c [unfolded r]] have ne: "cv_indices \<noteq> []"
    and t: "test_idx = snd (last cv_indices)"
    by (auto split: if_splits)
  have "length y_pred = length y" using put_elems_outside [OF p] by simp
  moreover have "y_pred ! i = 0" if "i < length y" "i \<notin> set (snd (last cv_indices))" for i
    using put_elems_outside [OF p, of i] that t by simp
  ultimately show ?thesis using ne by blast
qed

theorem only_last_fold_predicted_witness:
  "snd (single_y_pred toy_env 0 [([1, 3], [0, 2]), ([0, 2], [1, 3])]
          \<lparr>ncols = 1, rows = [[0], [0], [5], [1]]\<rparr> toy_y None toy_store0)
     = Inr ([0, 0, 0, 0], None)
   \<and> [([1, 3], [0, 2]), ([0, 2], [1, 3])] \<noteq> ([] :: (nat list \<times> nat list) list)
   \<and> length [0, 0, 0, 0 :: real] = length toy_y
   \<and> [0, 0, 0, 0 :: real] ! 0 = 0 \<and> [0, 0, 0, 0 :: real] ! 2 = 0
   \<and> snd (single_y_pred toy_env 0 [([1, 3], [0, 2])]
          \<lparr>ncols = 1, rows = [[0], [0], [5], [1]]\<rparr> toy_y None toy_store0)
     = Inr ([0, 0, 1, 0], None)
   \<and> snd (single_auc_score toy_env 0 0 [([1, 3], [0, 2]), ([0, 2], [1, 3])]
          \<lparr>ncols = 1, rows = [[0], [0], [5], [1]]\<rparr> toy_y None toy_store0)
     = Inr (0, Some (1 / 2))
   \<and> toy_roc_auc_score toy_y [0, 0, 1, 0] None = Inr (Some (3 / 4))"
proof -
  have a: "snd (single_y_pred toy_env 0 [([1, 3], [0, 2]), ([0, 2], [1, 3])]
          \<lparr>ncols = 1, rows = [[0], [0], [5], [1]]\<rparr> toy_y None toy_store0)
     = Inr ([0, 0, 0, 0], None)" by code_simp
  have b: "snd (single_y_pred toy_env 0 [([1, 3], [0, 2])]
          \<lparr>ncols = 1, rows = [[0], [0], [5], [1]]\<rparr> toy_y None toy_store0)
     = Inr ([0, 0, 1, 0], None)" by code_simp
  have c: "snd (single_auc_score toy_env 0 0 [([1, 3], [0, 2]), ([0, 2], [1, 3])]
          \<lparr>ncols = 1, rows = [[0], [0], [5], [1]]\<rparr> toy_y None toy_store0)
     = Inr (0, Some (1 / 2))" by code_simp
  have d: "toy_roc_auc_score toy_y [0, 0, 1, 0] None = Inr (Some (3 / 4))" by code_simp
  from only_last_fold_predicted [OF a] a b c d show ?thesis by simp
qed

subsection \<open>A proof rule for the search loop\<close>

text \<open>
  What holds before the first pass and is kept by every completed pass holds of the
  result; a run that raises does so in a pass that starts in such a state.
\<close>

lemma selection_loop_rule:
  assumes "selection_loop env clf X y sample_weight n cv_steps n_jobs forward matching_features
             entropy selected auc_scores w = (w', r)"
    and "P selected auc_scores w"
    and "\<And>sel M w1 w2 sel2 M2.
           P sel M w1 \<Longrightarrow> int (length sel) \<noteq> n \<Longrightarrow>
           selection_step env clf X y sample_weight cv_steps n_jobs forward matching_features
             entropy sel M w1 = (w2, Inr (sel2, M2)) \<Longrightarrow> P sel2 M2 w2"
  shows "case r of
           Inr (sel', M') \<Rightarrow> P sel' M' w' \<and> int (length sel') = n
         | Inl e \<Rightarrow> \<exists>sel M w1. P sel M w1 \<and> int (length sel) \<noteq> n \<and>
             selection_step env clf X y sample_weight cv_steps n_jobs forward matching_features
               entropy sel M w1 = (w', Inl e)"
  using assms
proof (induction env clf X y sample_weight n cv_steps n_jobs forward matching_features entropy
    selected auc_scores w rule: selection_loop.induct)
  case (1 env clf X y sample_weight n_features cv_steps n_jobs forward matching_features entropy
      selected_features auc_scores w)
  note loop = selection_loop.simps [of env clf X y sample_weight n_features cv_steps n_jobs
      forward matching_features entropy selected_features auc_scores w]
  show ?case
  proof (cases "int (length selected_features) = n_features")
    case True
    with "1.prems"(1,2) show ?thesis by (auto simp: loop)
  next
    case False
    obtain w1 r1 where s: "selection_step env clf X y sample_weight cv_steps n_jobs forward
        matching_features entropy selected_features auc_scores w = (w1, r1)"
      by (cases "selection_step env clf X y sample_weight cv_steps n_jobs forward
        matching_features entropy selected_features auc_scores w")
    show ?thesis
    proof (cases r1)
      case (Inl e)
      with False s "1.prems"(1) have "w' = w1" "r = Inl e" by (simp_all add: loop)
      with "1.prems"(2) False s Inl show ?thesis by auto
    next
      case (Inr p)
      obtain sel2 M2 where p: "p = (sel2, M2)" by (cases p)
      from s Inr p have s': "selection_step env clf X y sample_weight cv_steps n_jobs forward
        matching_features entropy selected_features auc_scores w = (w1, Inr (sel2, M2))" by simp
      from "1.prems"(1) False s' have l: "selection_loop env clf X y sample_weight n_features
        cv_steps n_jobs forward matching_features entropy sel2 M2 w1 = (w', r)"
        by (simp add: loop)
      have P2: "P sel2 M2 w1" using "1.prems"(3) [OF "1.prems"(2) False s'] .
      show ?thesis
        using "1.IH" [OF False s' [symmetric] refl refl l P2] "1.prems"(3) by blast
    qed
  qed
qed

subsection \<open>The process-pool branch leaves the store alone\<close>

lemma get_all_pool_store:
  "1 < n_jobs \<Longrightarrow>
   fst (get_all_auc_scores env clf selected_features X y sample_weight cv_steps n_jobs forward
          random_state entropy w) = w"
  by (auto simp: get_all_auc_scores_def Let_def split: sum.splits)

lemma selection_step_pool_store:
  assumes "1 < n_jobs"
  shows "fst (selection_step env clf X y sample_weight cv_steps n_jobs forward matching_features
           entropy selected_features auc_scores w) = w"
  using get_all_pool_store [OF assms, of env clf selected_features X y sample_weight cv_steps
      forward RS_None "entropy (length selected_features)" w]
  by (auto simp: selection_step_def split: prod.splits sum.splits)

lemma selection_loop_pool_store:
  assumes "1 < n_jobs"
  shows "fst (selection_loop env clf X y sample_weight n cv_steps n_jobs forward matching_features
           entropy selected auc_scores w) = w"
proof -
  obtain w' r where l: "selection_loop env clf X y sample_weight n cv_steps n_jobs forward
      matching_features entropy selected auc_scores w = (w', r)"
    by (cases "selection_loop env clf X y sample_weight n cv_steps n_jobs forward
      matching_features entropy selected auc_scores w")
  have step: "w2 = w1"
    if "selection_step env clf X y sample_weight cv_steps n_jobs forward matching_features
          entropy sel M w1 = (w2, r2)" for sel M w1 w2 r2
    using selection_step_pool_store [OF assms, of env clf X y sample_weight cv_steps forward
        matching_features entropy sel M w1] that by simp
  have "case r of
           Inr (sel', M') \<Rightarrow> w' = w \<and> int (length sel') = n
         | Inl e \<Rightarrow> \<exists>sel M w1. w1 = w \<and> int (length sel) \<noteq> n \<and>
             selection_step env clf X y sample_weight cv_steps n_jobs forward matching_features
               entropy sel M w1 = (w', Inl e)"
    by (rule selection_loop_rule [OF l, where P = "\<lambda>sel M w1. w1 = w"]) (auto dest: step)
  then have "w' = w" by (auto split: sum.splits dest: step)
  with l show ?thesis by simp
qed

lemma search_pool_store:
  assumes "1 < n_jobs"
  shows "fst (recursive_feature_selection_roc_auc env clf X y sample_weight n_features cv_steps
           n_jobs forward matching_features entropy w) = w"
  by (simp add: recursive_feature_selection_roc_auc_def Let_def selection_loop_pool_store [OF assms])

subsection \<open>Clamping\<close>

lemma set_column_length:
  "set_column M n_rows k v = Inr M' \<Longrightarrow> length M' = length M \<and> k < length M"
  by (auto simp: set_column_def split: if_splits)

lemma selection_step_shape:
  assumes "selection_step env clf X y sample_weight cv_steps n_jobs forward matching_features
             entropy sel M w = (w', Inr (sel', M'))"
  shows "length M' = length M \<and> length sel < length M
       \<and> sel' = sel @ [last sel'] \<and> length sel' = Suc (length sel)"
  using assms
  by (auto simp: selection_step_def split: prod.splits sum.splits dest: set_column_length)

lemma selection_loop_result:
  assumes "selection_loop env clf X y sample_weight n cv_steps n_jobs forward matching_features
             entropy selected auc_scores w = (w', Inr (sel', M'))"
  shows "int (length sel') = n \<and> length M' = length auc_scores"
proof -
  have "case Inr (sel', M') of
           Inr (sel', M') \<Rightarrow> length M' = length auc_scores \<and> int (length sel') = n
         | Inl e \<Rightarrow> \<exists>sel M w1. length M = length auc_scores \<and> int (length sel) \<noteq> n \<and>
             selection_step env clf X y sample_weight cv_steps n_jobs forward matching_features
               entropy sel M w1 = (w', Inl e)"
    by (rule selection_loop_rule [OF assms, where P = "\<lambda>sel M w1. length M = length auc_scores"])
       (auto dest: selection_step_shape)
  then show ?thesis by simp
qed

text \<open>
  What lines 105 to 108 do by themselves: a request above the number of columns is
  treated exactly as a request for all columns, and a run that returns has selected that
  many features.
\<close>

lemma n_features_clamped:
  assumes "int (ncols X) < n_features"
  shows "recursive_feature_selection_roc_auc env clf X y sample_weight n_features cv_steps n_jobs
           forward matching_features entropy w
         = recursive_feature_selection_roc_auc env clf X y sample_weight (int (ncols X)) cv_steps
             n_jobs forward matching_features entropy w
       \<and> (\<forall>w' selected auc_scores.
            recursive_feature_selection_roc_auc env clf X y sample_weight n_features cv_steps
              n_jobs forward matching_features entropy w = (w', Inr (selected, auc_scores))
            \<longrightarrow> length selected = ncols X \<and> length auc_scores = ncols X)"
proof -
  have c: "clamped X n_features = int (ncols X)" "clamped X (int (ncols X)) = int (ncols X)"
    using assms by (simp_all add: clamped_def)
  have eq: "recursive_feature_selection_roc_auc env clf X y sample_weight n_features cv_steps
           n_jobs forward matching_features entropy w
         = recursive_feature_selection_roc_auc env clf X y sample_weight (int (ncols X)) cv_steps
             n_jobs forward matching_features entropy w"
    by (simp add: recursive_feature_selection_roc_auc_def c)
  have "length selected = ncols X \<and> length auc_scores = ncols X"
    if "recursive_feature_selection_roc_auc env clf X y sample_weight n_features cv_steps
              n_jobs forward matching_features entropy w = (w', Inr (selected, auc_scores))"
    for w' selected auc_scores
  proof -
    from that have "selection_loop env clf X y sample_weight (int (ncols X)) cv_steps n_jobs
        forward matching_features entropy []
        (replicate (ncols X) (replicate (ncols X) (Some 0))) w = (w', Inr (selected, auc_scores))"
      by (auto simp: recursive_feature_selection_roc_auc_def c split: if_splits)
    from selection_loop_result [OF this] show ?thesis by simp
  qed
  with eq show ?thesis by blast
qed

text \<open>
  Claim C7 (the code differs). A request for more features than \<open>X\<close> has columns is clamped,
  but with the default \<open>n_jobs = 1\<close> (any \<open>n_jobs \<le> 1\<close>) the search never completes: it ends in
  an exception, by the assignment into the empty list of line 319, instead of returning a
  list of \<open>X.shape[1]\<close> features.
\<close>

theorem clamped_sequential_run_raises:
  assumes "int (ncols X) < n_features" and "0 < ncols X" and "n_jobs \<le> 1"
  shows "\<exists>e. snd (recursive_feature_selection_roc_auc env clf X y sample_weight n_features
                 cv_steps n_jobs forward matching_features entropy w) = Inl e"
proof -
  from assms(1) have "0 < n_features" by simp
  with assms(3) show ?thesis using assms(2) by (rule search_sequential_error)
qed

theorem clamped_sequential_run_raises_witness:
  "int (ncols toy_X) < 5 \<and> 0 < ncols toy_X \<and> (1::int) \<le> 1
   \<and> snd (recursive_feature_selection_roc_auc toy_env 0 toy_X toy_y None 5 2 1 True False
           (\<lambda>k. 0) toy_store0) = Inl IndexError
   \<and> snd (recursive_feature_selection_roc_auc toy_env 0 toy_X toy_y None 5 2 2 False False
           (\<lambda>k. 0) toy_store0) = Inl IndexError
   \<and> snd (recursive_feature_selection_roc_auc toy_env 0 toy_X toy_y None 5 2 2 True False
           (\<lambda>k. 0) toy_store0)
       = Inr ([Some 0, Some 1], [[Some (3 / 4), Some (1 / 2)], [None, Some (3 / 4)]])"
proof -
  have a: "int (ncols toy_X) < 5" and b: "0 < ncols toy_X" by code_simp+
  have c: "(1::int) \<le> 1" by simp
  have d: "snd (recursive_feature_selection_roc_auc toy_env 0 toy_X toy_y None 5 2 1 True False
           (\<lambda>k. 0) toy_store0) = Inl IndexError" by code_simp
  have e: "snd (recursive_feature_selection_roc_auc toy_env 0 toy_X toy_y None 5 2 2 False False
           (\<lambda>k. 0) toy_store0) = Inl IndexError" by code_simp
  have f: "snd (recursive_feature_selection_roc_auc toy_env 0 toy_X toy_y None 5 2 2 True False
           (\<lambda>k. 0) toy_store0)
       = Inr ([Some 0, Some 1], [[Some (3 / 4), Some (1 / 2)], [None, Some (3 / 4)]])"
    by code_simp
  from clamped_sequential_run_raises [OF a b c, of toy_env 0 toy_y None 2 True False "\<lambda>k. 0"
      toy_store0] a b c d e f
  show ?thesis by blast
qed

subsection \<open>The scores of the process-pool branch\<close>

lemma gather_Inr:
  "gather a rs = Inr s \<Longrightarrow>
   length s = length a \<and> (\<forall>r\<in>set rs. \<not> isl r)
   \<and> (\<forall>i<length a. s ! i \<noteq> a ! i \<longrightarrow> (\<exists>v. Inr (i, v) \<in> set rs))"
proof (induction a rs rule: gather.induct)
  case (1 auc_scores)
  then show ?case by simp
next
  case (2 auc_scores e results)
  then show ?case by simp
next
  case (3 auc_scores feature_i auc results)
  from "3.prems" obtain a' where a': "setitem auc_scores feature_i auc = Inr a'"
    and g: "gather a' results = Inr s"
    by (auto split: sum.splits)
  from a' have f: "feature_i < length auc_scores" and a'_def: "a' = auc_scores[feature_i := auc]"
    by (auto simp: setitem_def split: if_splits)
  from "3.IH" [OF a' g] have ih: "length s = length a'" "\<forall>r\<in>set results. \<not> isl r"
    "\<forall>i<length a'. s ! i \<noteq> a' ! i \<longrightarrow> (\<exists>v. Inr (i, v) \<in> set results)" by blast+
  have "\<exists>v. Inr (i, v) \<in> set (Inr (feature_i, auc) # results)"
    if "i < length auc_scores" "s ! i \<noteq> auc_scores ! i" for i
  proof (cases "i = feature_i")
    case True
    then show ?thesis by auto
  next
    case False
    with that a'_def have "s ! i \<noteq> a' ! i" by simp
    with ih(3) that(1) a'_def show ?thesis by auto
  qed
  with ih(1,2) a'_def show ?case by auto
qed

lemma gather_lookup:
  "gather a rs = Inr s \<Longrightarrow> distinct (map (\<lambda>r. fst (projr r)) rs) \<Longrightarrow>
   Inr (i, v) \<in> set rs \<Longrightarrow> s ! i = v"
proof (induction a rs rule: gather.induct)
  case (1 auc_scores)
  then show ?case by simp
next
  case (2 auc_scores e results)
  then show ?case by simp
next
  case (3 auc_scores feature_i auc results)
  from "3.prems"(1) obtain a' where a': "setitem auc_scores feature_i auc = Inr a'"
    and g: "gather a' results = Inr s"
    by (auto split: sum.splits)
  from a' have f: "feature_i < length auc_scores" and a'_def: "a' = auc_scores[feature_i := auc]"
    by (auto simp: setitem_def split: if_splits)
  from "3.prems"(2) have d: "distinct (map (\<lambda>r. fst (projr r)) results)"
    and nf: "feature_i \<notin> (\<lambda>r. fst (projr r)) ` set results" by auto
  show ?case
  proof (cases "Inr (i, v) \<in> set results")
    case True
    from "3.IH" [OF a' g d True] show ?thesis .
  next
    case False
    with "3.prems"(3) have iv: "i = feature_i" "v = auc" by auto
    have "\<not> (\<exists>u. Inr (feature_i, u) \<in> set results)"
      using nf by force
    with gather_Inr [OF g] f a'_def have "s ! feature_i = a' ! feature_i"
      by auto
    with iv f a'_def show ?thesis by simp
  qed
qed

lemma single_auc_score_feature:
  "snd (single_auc_score env feature_i clf cv_indices X y sample_weight w) = Inr (i, v) \<Longrightarrow>
   i = feature_i"
  by (auto simp: single_auc_score_def split: prod.splits sum.splits)

lemma submit_all_member:
  assumes "Inr (i, v) \<in> set (submit_all env clf cv_indices y sample_weight args w)"
  shows "i \<in> fst ` set args"
  using assms
  by (auto simp: submit_all_def dest!: single_auc_score_feature [OF sym] split: prod.splits)
     force

lemma submit_all_features:
  assumes "\<forall>r\<in>set (submit_all env clf cv_indices y sample_weight args w). \<not> isl r"
  shows "map (\<lambda>r. fst (projr r)) (submit_all env clf cv_indices y sample_weight args w)
         = map fst args"
  using assms
proof (induction args)
  case Nil
  then show ?case by (simp add: submit_all_def)
next
  case (Cons a args)
  obtain f Xf where a: "a = (f, Xf)" by (cases a)
  from Cons.prems a obtain p where
    p: "snd (single_auc_score env f clf cv_indices Xf y sample_weight w) = Inr p"
    by (cases "snd (single_auc_score env f clf cv_indices Xf y sample_weight w)")
       (auto simp: submit_all_def)
  obtain i v where "p = (i, v)" by (cases p)
  with p single_auc_score_feature [of env f clf cv_indices Xf y sample_weight w i v]
  have "fst p = f" by simp
  with Cons a p show ?case by (simp add: submit_all_def)
qed

lemma test_features_of_props:
  "distinct (test_features_of X selected)
   \<and> (\<forall>i\<in>set (test_features_of X selected). i < ncols X \<and> i \<notin> set selected)"
  by (auto simp: test_features_of_def)

lemma sequential_loop_Inr:
  "sequential_loop env clf cv_indices y sample_weight [] args w = (w', Inr scores) \<Longrightarrow>
   args = [] \<and> scores = [] \<and> w' = w"
  by (cases args) (auto simp: setitem_def split: prod.splits sum.splits)

lemma get_all_finite_entries:
  assumes "get_all_auc_scores env clf selected_features X y sample_weight cv_steps n_jobs forward
             random_state entropy w = (w', Inr scores)"
  shows "list_all (\<lambda>s. s \<noteq> None) selected_features
       \<and> (\<forall>i<length scores. scores ! i \<noteq> None \<longrightarrow> i < ncols X \<and> Some i \<notin> set selected_features)"
proof -
  let ?sel = "map the selected_features"
  let ?tf = "test_features_of X ?sel"
  from assms have ok: "list_all (\<lambda>s. s \<noteq> None) selected_features"
    by (auto simp: get_all_auc_scores_def split: sum.splits if_splits)
  have sel: "Some i \<in> set selected_features \<Longrightarrow> i \<in> set ?sel" for i
    by force
  have "i < ncols X \<and> Some i \<notin> set selected_features"
    if i: "i < length scores" "scores ! i \<noteq> None" for i
  proof (cases "1 < n_jobs")
    case False
    with assms have "scores = []"
      by (auto simp: get_all_auc_scores_def Let_def split: sum.splits if_splits
               dest: sequential_loop_Inr)
    with i show ?thesis by simp
  next
    case True
    with assms obtain rng cv_indices args where
      args: "process_args X forward ?sel ?tf ?tf = Inr args"
      and g: "gather (replicate (ncols X) None)
                (submit_all env clf cv_indices y sample_weight args w) = Inr scores"
      by (auto simp: get_all_auc_scores_def Let_def split: sum.splits if_splits)
    from gather_Inr [OF g] i obtain v where
      "Inr (i, v) \<in> set (submit_all env clf cv_indices y sample_weight args w)"
      by auto
    from submit_all_member [OF this] process_args_fst [OF args] have "i \<in> set ?tf"
      by (metis set_map)
    with test_features_of_props [of X ?sel] sel show ?thesis by blast
  qed
  with ok show ?thesis by blast
qed

lemma get_all_pool_scores:
  assumes "1 < n_jobs"
    and "get_all_auc_scores env clf selected_features X y sample_weight cv_steps n_jobs forward
             random_state entropy w = (w', Inr scores)"
  shows "length scores = ncols X
       \<and> (\<exists>rng cv_indices args.
            make_random_state env random_state entropy = Inr rng
          \<and> StratifiedKFold_split env (nat cv_steps) rng X y = Inr cv_indices
          \<and> process_args X forward (map the selected_features)
               (test_features_of X (map the selected_features))
               (test_features_of X (map the selected_features)) = Inr args
          \<and> (\<forall>(f, X_f)\<in>set args.
                snd (single_auc_score env f clf cv_indices X_f y sample_weight w)
                  = Inr (f, scores ! f)))"
proof -
  let ?sel = "map the selected_features"
  let ?tf = "test_features_of X ?sel"
  from assms obtain rng cv_indices args where
    rng: "make_random_state env random_state entropy = Inr rng"
    and cv: "StratifiedKFold_split env (nat cv_steps) rng X y = Inr cv_indices"
    and args: "process_args X forward ?sel ?tf ?tf = Inr args"
    and g: "gather (replicate (ncols X) None)
                (submit_all env clf cv_indices y sample_weight args w) = Inr scores"
    by (auto simp: get_all_auc_scores_def Let_def split: sum.splits if_splits)
  let ?rs = "submit_all env clf cv_indices y sample_weight args w"
  from gather_Inr [OF g] have len: "length scores = ncols X" and inr: "\<forall>r\<in>set ?rs. \<not> isl r"
    by auto
  have d: "distinct (map (\<lambda>r. fst (projr r)) ?rs)"
    using submit_all_features [OF inr] process_args_fst [OF args] test_features_of_props [of X ?sel]
    by simp
  have "snd (single_auc_score env f clf cv_indices X_f y sample_weight w) = Inr (f, scores ! f)"
    if m: "(f, X_f) \<in> set args" for f X_f
  proof -
    let ?r = "snd (single_auc_score env f clf cv_indices X_f y sample_weight w)"
    from m have r: "?r \<in> set ?rs" by (force simp: submit_all_def)
    with inr obtain i v where iv: "?r = Inr (i, v)" by (cases ?r) auto
    from single_auc_score_feature [OF iv] have "i = f" .
    with gather_lookup [OF g d] r iv show ?thesis by simp
  qed
  with len rng cv args show ?thesis by blast
qed

subsection \<open>The Search State\<close>

lemma select_best_None_or_finite:
  "select_best mf fw scores = x \<Longrightarrow>
   x = None \<or> (\<exists>i. x = Some i \<and> i < length scores \<and> scores ! i \<noteq> None)"
  using select_best_Some [of mf fw scores] by (cases x) auto

lemma selection_step_invariant:
  assumes step: "selection_step env clf X y sample_weight cv_steps n_jobs forward
                   matching_features entropy sel M w = (w', Inr (sel', M'))"
    and inv: "distinct sel" "\<forall>i. Some i \<in> set sel \<longrightarrow> i < ncols X" "length M = nat n"
  shows "distinct sel' \<and> (\<forall>i. Some i \<in> set sel' \<longrightarrow> i < ncols X) \<and> length M' = nat n
       \<and> int (length sel') \<le> n"
proof -
  from step obtain scores where
    g: "get_all_auc_scores env clf sel X y sample_weight cv_steps n_jobs forward RS_None
          (entropy (length sel)) w = (w', Inr scores)"
    and sel': "sel' = sel @ [select_best matching_features forward scores]"
    by (auto simp: selection_step_def split: prod.splits sum.splits)
  from get_all_finite_entries [OF g] have nn: "None \<notin> set sel"
    and fin: "\<forall>i<length scores. scores ! i \<noteq> None \<longrightarrow> i < ncols X \<and> Some i \<notin> set sel"
    by (auto simp: list_all_iff)
  from select_best_None_or_finite [OF refl, of matching_features forward scores] nn fin
  have new: "select_best matching_features forward scores \<notin> set sel"
    and rng: "\<forall>i. select_best matching_features forward scores = Some i \<longrightarrow> i < ncols X"
    by auto
  from selection_step_shape [OF step] inv(3)
  have "length M' = nat n" "int (length sel') \<le> n" by auto
  with new rng inv(1,2) sel' show ?thesis by auto
qed

lemma search_state_invariant:
  assumes "search_state env clf X y sample_weight n cv_steps n_jobs forward matching_features
             entropy w0 sel M w"
    and "0 \<le> n"
  shows "distinct sel \<and> (\<forall>i. Some i \<in> set sel \<longrightarrow> i < ncols X) \<and> length M = nat n
       \<and> int (length sel) \<le> n"
  using assms
proof (induction rule: search_state.induct)
  case initial
  then show ?case by simp
next
  case (pass selected_features auc_scores w w' selected' auc_scores')
  from pass.IH [OF pass.prems] selection_step_invariant [OF pass.hyps(3), of n]
  show ?case by blast
qed

lemma selection_loop_search_state:
  assumes "selection_loop env clf X y sample_weight n cv_steps n_jobs forward matching_features
             entropy sel M w = (w', Inr (sel', M'))"
    and "search_state env clf X y sample_weight n cv_steps n_jobs forward matching_features
             entropy w0 sel M w"
  shows "search_state env clf X y sample_weight n cv_steps n_jobs forward matching_features
             entropy w0 sel' M' w' \<and> int (length sel') = n"
proof -
  have "case Inr (sel', M') of
           Inr (sel', M') \<Rightarrow>
             search_state env clf X y sample_weight n cv_steps n_jobs forward matching_features
               entropy w0 sel' M' w' \<and> int (length sel') = n
         | Inl e \<Rightarrow> \<exists>sel M w1.
             search_state env clf X y sample_weight n cv_steps n_jobs forward matching_features
               entropy w0 sel M w1 \<and> int (length sel) \<noteq> n \<and>
             selection_step env clf X y sample_weight cv_steps n_jobs forward matching_features
               entropy sel M w1 = (w', Inl e)"
    by (rule selection_loop_rule [OF assms(1), where P = "search_state env clf X y sample_weight
          n cv_steps n_jobs forward matching_features entropy w0"])
       (auto intro: assms(2) search_state.pass)
  then show ?thesis by simp
qed

lemma unselected_feature_exists:
  fixes sel :: "nat list"
  assumes "length sel < m"
  shows "\<exists>i<m. i \<notin> set sel"
proof (rule ccontr)
  assume "\<not> (\<exists>i<m. i \<notin> set sel)"
  then have "{..<m} \<subseteq> set sel" by auto
  then have "card {..<m} \<le> card (set sel)" by (intro card_mono) auto
  also have "\<dots> \<le> length sel" by (rule card_length)
  finally show False using assms by simp
qed

lemma single_auc_score_from_roc:
  "snd (single_auc_score env f clf cv_indices X y sample_weight w) = Inr (i, v) \<Longrightarrow>
   \<exists>y_score sw. roc_auc_score env y y_score sw = Inr v"
  by (auto simp: single_auc_score_def split: prod.splits sum.splits)

lemma get_all_candidates_scored:
  assumes g: "get_all_auc_scores env clf selected_features X y sample_weight cv_steps n_jobs
                forward random_state entropy w = (w', Inr scores)"
    and fin: "\<And>y_true y_score sw. roc_auc_score env y_true y_score sw \<noteq> Inr None"
    and f: "f \<in> set (test_features_of X (map the selected_features))"
  shows "f < length scores \<and> scores ! f \<noteq> None"
proof (cases "1 < n_jobs")
  case False
  then have "n_jobs \<le> 1" by simp
  moreover from f have "test_features_of X (map the selected_features) \<noteq> []" by auto
  ultimately have "\<exists>e. snd (get_all_auc_scores env clf selected_features X y sample_weight
      cv_steps n_jobs forward random_state entropy w) = Inl e"
    by (rule get_all_sequential_error)
  with g show ?thesis by simp
next
  case True
  from get_all_pool_scores [OF True g] obtain cv_indices args where
    len: "length scores = ncols X"
    and args: "process_args X forward (map the selected_features)
               (test_features_of X (map the selected_features))
               (test_features_of X (map the selected_features)) = Inr args"
    and sc: "\<forall>(f, X_f)\<in>set args.
                snd (single_auc_score env f clf cv_indices X_f y sample_weight w)
                  = Inr (f, scores ! f)"
    by blast
  from process_args_fst [OF args] f have "f \<in> fst ` set args" by (metis set_map)
  then obtain X_f where "(f, X_f) \<in> set args" by force
  with sc have "snd (single_auc_score env f clf cv_indices X_f y sample_weight w)
                  = Inr (f, scores ! f)" by blast
  from single_auc_score_from_roc [OF this] fin have "scores ! f \<noteq> None" by metis
  moreover from f test_features_of_props [of X "map the selected_features"] len
  have "f < length scores" by auto
  ultimately show ?thesis by blast
qed

lemma selection_step_selects:
  assumes step: "selection_step env clf X y sample_weight cv_steps n_jobs forward
                   matching_features entropy sel M w = (w', Inr (sel', M'))"
    and fin: "\<And>y_true y_score sw. roc_auc_score env y_true y_score sw \<noteq> Inr None"
    and M: "length M \<le> ncols X"
  shows "None \<notin> set sel'"
proof -
  from step obtain scores where
    g: "get_all_auc_scores env clf sel X y sample_weight cv_steps n_jobs forward RS_None
          (entropy (length sel)) w = (w', Inr scores)"
    and sel': "sel' = sel @ [select_best matching_features forward scores]"
    by (auto simp: selection_step_def split: prod.splits sum.splits)
  from get_all_finite_entries [OF g] have nn: "None \<notin> set sel"
    by (auto simp: list_all_iff)
  from selection_step_shape [OF step] M have "length (map the sel) < ncols X" by simp
  from unselected_feature_exists [OF this] obtain f where
    "f < ncols X" "f \<notin> set (map the sel)" by blast
  then have "f \<in> set (test_features_of X (map the sel))"
    by (simp add: test_features_of_def)
  from get_all_candidates_scored [OF g fin this]
  have "\<exists>j<length scores. scores ! j \<noteq> None" by blast
  from select_best_argmin [OF this, of matching_features forward]
  have "select_best matching_features forward scores \<noteq> None" by auto
  with nn sel' show ?thesis by auto
qed

lemma search_state_no_None:
  assumes "search_state env clf X y sample_weight n cv_steps n_jobs forward matching_features
             entropy w0 sel M w"
    and "0 \<le> n" and "n \<le> int (ncols X)"
    and fin: "\<And>y_true y_score sw. roc_auc_score env y_true y_score sw \<noteq> Inr None"
  shows "None \<notin> set sel"
  using assms(1)
proof (cases rule: search_state.cases)
  case initial
  then show ?thesis by simp
next
  case (pass selected_features auc_scores w1)
  from search_state_invariant [OF pass(1) assms(2)] assms(3)
  have "length auc_scores \<le> ncols X" by simp
  from selection_step_selects [OF pass(3) fin this] show ?thesis .
qed

text \<open>
  Claim C8. In every run that gets past line 109 (\<open>0 \<le> n_features\<close>), every state the loop
  passes through has a list of selected features without repetition and no longer than
  the clamped count, whose indices are columns of \<open>X\<close> (and all its entries are indices,
  none is \<^verbatim>\<open>None\<close>, when \<^verbatim>\<open>roc_auc_score\<close> returns finite numbers only); every completed
  pass appends exactly one entry to it; and when the search returns, the list has exactly
  the clamped number of entries (and is the list of such a state).
\<close>

theorem search_state_growth:
  assumes "0 \<le> n_features"
    and "search_state env clf X y sample_weight (clamped X n_features) cv_steps n_jobs forward
           matching_features entropy w0 selected auc_scores w"
  shows "distinct selected \<and> int (length selected) \<le> clamped X n_features
       \<and> (\<forall>i. Some i \<in> set selected \<longrightarrow> i < ncols X)
       \<and> ((\<forall>y_true y_score sw. roc_auc_score env y_true y_score sw \<noteq> Inr None)
            \<longrightarrow> None \<notin> set selected)
       \<and> (\<forall>w' selected' auc_scores'.
            selection_step env clf X y sample_weight cv_steps n_jobs forward matching_features
              entropy selected auc_scores w = (w', Inr (selected', auc_scores'))
            \<longrightarrow> length selected' = Suc (length selected) \<and> butlast selected' = selected)
       \<and> (\<forall>w' selected' auc_scores'.
            recursive_feature_selection_roc_auc env clf X y sample_weight n_features cv_steps
              n_jobs forward matching_features entropy w0 = (w', Inr (selected', auc_scores'))
            \<longrightarrow> int (length selected') = clamped X n_features \<and> distinct selected'
              \<and> search_state env clf X y sample_weight (clamped X n_features) cv_steps n_jobs
                  forward matching_features entropy w0 selected' auc_scores' w')"
proof -
  have c: "0 \<le> clamped X n_features" using assms(1) by (simp add: clamped_def)
  from search_state_invariant [OF assms(2) c]
  have a: "distinct selected \<and> int (length selected) \<le> clamped X n_features
         \<and> (\<forall>i. Some i \<in> set selected \<longrightarrow> i < ncols X)" by blast
  have c2: "clamped X n_features \<le> int (ncols X)" by (simp add: clamped_def)
  have e: "None \<notin> set selected"
    if "\<forall>y_true y_score sw. roc_auc_score env y_true y_score sw \<noteq> Inr None"
    using search_state_no_None [OF assms(2) c c2] that by blast
  have b: "length selected' = Suc (length selected) \<and> butlast selected' = selected"
    if "selection_step env clf X y sample_weight cv_steps n_jobs forward matching_features
              entropy selected auc_scores w = (w', Inr (selected', auc_scores'))"
    for w' selected' auc_scores'
  proof -
    from selection_step_shape [OF that]
    have "selected' = selected @ [last selected']" "length selected' = Suc (length selected)"
      by blast+
    then show ?thesis by (metis butlast_snoc)
  qed
  have d: "int (length selected') = clamped X n_features \<and> distinct selected'
         \<and> search_state env clf X y sample_weight (clamped X n_features) cv_steps n_jobs
                  forward matching_features entropy w0 selected' auc_scores' w'"
    if "recursive_feature_selection_roc_auc env clf X y sample_weight n_features cv_steps
              n_jobs forward matching_features entropy w0 = (w', Inr (selected', auc_scores'))"
    for w' selected' auc_scores'
  proof -
    from that have "selection_loop env clf X y sample_weight (clamped X n_features) cv_steps
        n_jobs forward matching_features entropy []
        (replicate (nat (clamped X n_features)) (replicate (ncols X) (Some 0))) w0
        = (w', Inr (selected', auc_scores'))"
      by (auto simp: recursive_feature_selection_roc_auc_def Let_def split: if_splits)
    from selection_loop_search_state [OF this search_state.initial]
    have s: "search_state env clf X y sample_weight (clamped X n_features) cv_steps n_jobs
        forward matching_features entropy w0 selected' auc_scores' w'"
      and l: "int (length selected') = clamped X n_features" by blast+
    from search_state_invariant [OF s c] s l show ?thesis by blast
  qed
  from a b d e show ?thesis by blast
qed

theorem search_state_growth_witness:
  "(0::int) \<le> 5
   \<and> search_state toy_env 0 toy_X toy_y None (clamped toy_X 5) 2 2 True False (\<lambda>k. 0) toy_store0
       [Some 0] [[Some (3 / 4), Some (1 / 2)], [Some 0, Some 0]] toy_store0
   \<and> distinct [Some (0::nat)] \<and> int (length [Some (0::nat)]) \<le> clamped toy_X 5
   \<and> snd (selection_step toy_env 0 toy_X toy_y None 2 2 True False (\<lambda>k. 0)
           [Some 0] [[Some (3 / 4), Some (1 / 2)], [Some 0, Some 0]] toy_store0)
       = Inr ([Some 0, Some 1], [[Some (3 / 4), Some (1 / 2)], [None, Some (3 / 4)]])
   \<and> snd (recursive_feature_selection_roc_auc toy_env 0 toy_X toy_y None 5 2 2 True False
           (\<lambda>k. 0) toy_store0)
       = Inr ([Some 0, Some 1], [[Some (3 / 4), Some (1 / 2)], [None, Some (3 / 4)]])
   \<and> int (length [Some 0, Some (1::nat)]) = clamped toy_X 5"
proof -
  have a: "(0::int) \<le> 5" by simp
  have c: "clamped toy_X 5 = 2" by code_simp
  have s0: "snd (selection_step toy_env 0 toy_X toy_y None 2 2 True False (\<lambda>k. 0) []
              (replicate (nat 2) (replicate (ncols toy_X) (Some 0))) toy_store0)
          = Inr ([Some 0], [[Some (3 / 4), Some (1 / 2)], [Some 0, Some 0]])"
    by code_simp
  have "fst (selection_step toy_env 0 toy_X toy_y None 2 2 True False (\<lambda>k. 0) []
              (replicate (nat 2) (replicate (ncols toy_X) (Some 0))) toy_store0) = toy_store0"
    by (rule selection_step_pool_store) simp
  with s0 have s0': "selection_step toy_env 0 toy_X toy_y None 2 2 True False (\<lambda>k. 0) []
              (replicate (nat 2) (replicate (ncols toy_X) (Some 0))) toy_store0
          = (toy_store0, Inr ([Some 0], [[Some (3 / 4), Some (1 / 2)], [Some 0, Some 0]]))"
    by (simp add: prod_eq_iff)
  have b: "search_state toy_env 0 toy_X toy_y None (clamped toy_X 5) 2 2 True False (\<lambda>k. 0)
       toy_store0 [Some 0] [[Some (3 / 4), Some (1 / 2)], [Some 0, Some 0]] toy_store0"
    unfolding c
    by (rule search_state.pass [OF search_state.initial _ s0']) simp
  have s1: "snd (selection_step toy_env 0 toy_X toy_y None 2 2 True False (\<lambda>k. 0)
           [Some 0] [[Some (3 / 4), Some (1 / 2)], [Some 0, Some 0]] toy_store0)
       = Inr ([Some 0, Some 1], [[Some (3 / 4), Some (1 / 2)], [None, Some (3 / 4)]])"
    by code_simp
  have r: "snd (recursive_feature_selection_roc_auc toy_env 0 toy_X toy_y None 5 2 2 True False
           (\<lambda>k. 0) toy_store0)
       = Inr ([Some 0, Some 1], [[Some (3 / 4), Some (1 / 2)], [None, Some (3 / 4)]])"
    by code_simp
  from search_state_growth [OF a b] a b c s1 r show ?thesis by simp
qed

subsection \<open>The classifier object\<close>

text \<open>
  Claim C3 says that every fold fits a fresh instance and that a search does not change
  the caller's classifier. Neither holds: scoring one candidate over two folds fits the
  caller's object \<open>0\<close> itself, twice, and a search in the sequential branch leaves that
  object fitted.
\<close>

theorem fresh_classifier_counterexample:
  "toy_store0 0 = (0, 0)
   \<and> fst (single_auc_score toy_env 0 0 [([1, 3], [0, 2]), ([0, 2], [1, 3])]
           \<lparr>ncols = 1, rows = [[0], [0], [1], [5]]\<rparr> toy_y None toy_store0) 0 = (2, 1 / 2)
   \<and> fst (recursive_feature_selection_roc_auc toy_env 0 toy_X toy_y None 1 2 1 True False
           (\<lambda>k. 0) toy_store0) 0 = (2, 1 / 2)"
  by code_simp

text \<open>
  Claim C3, amended. The module copies no classifier; in the process-pool branch
  (\<open>n_jobs > 1\<close>) the copies are the workers' own. There a search, and each call of the
  evaluation stage, leaves the caller's store of objects as it was, and the score of every
  candidate is the one the scorer computes from that same store: no fitted state passes
  from one candidate to another or back to the caller.
\<close>

theorem pool_branch_leaves_store:
  assumes "1 < n_jobs"
  shows "fst (recursive_feature_selection_roc_auc env clf X y sample_weight n_features cv_steps
                n_jobs forward matching_features entropy w) = w
       \<and> fst (get_all_auc_scores env clf selected_features X y sample_weight cv_steps n_jobs
                forward random_state rng0 w) = w
       \<and> (\<forall>scores.
            snd (get_all_auc_scores env clf selected_features X y sample_weight cv_steps n_jobs
                   forward random_state rng0 w) = Inr scores
            \<longrightarrow> (\<exists>rng cv_indices args.
                   make_random_state env random_state rng0 = Inr rng
                 \<and> StratifiedKFold_split env (nat cv_steps) rng X y = Inr cv_indices
                 \<and> process_args X forward (map the selected_features)
                      (test_features_of X (map the selected_features))
                      (test_features_of X (map the selected_features)) = Inr args
                 \<and> (\<forall>(f, X_f)\<in>set args.
                       snd (single_auc_score env f clf cv_indices X_f y sample_weight w)
                         = Inr (f, scores ! f))))"
proof -
  have a: "fst (recursive_feature_selection_roc_auc env clf X y sample_weight n_features cv_steps
                n_jobs forward matching_features entropy w) = w"
    using assms by (rule search_pool_store)
  have b: "fst (get_all_auc_scores env clf selected_features X y sample_weight cv_steps n_jobs
                forward random_state rng0 w) = w"
    using assms by (rule get_all_pool_store)
  have c: "\<exists>rng cv_indices args.
                   make_random_state env random_state rng0 = Inr rng
                 \<and> StratifiedKFold_split env (nat cv_steps) rng X y = Inr cv_indices
                 \<and> process_args X forward (map the selected_features)
                      (test_features_of X (map the selected_features))
                      (test_features_of X (map the selected_features)) = Inr args
                 \<and> (\<forall>(f, X_f)\<in>set args.
                       snd (single_auc_score env f clf cv_indices X_f y sample_weight w)
                         = Inr (f, scores ! f))"
    if "snd (get_all_auc_scores env clf selected_features X y sample_weight cv_steps n_jobs
                   forward random_state rng0 w) = Inr scores" for scores
  proof -
    from that b have "get_all_auc_scores env clf selected_features X y sample_weight cv_steps
        n_jobs forward random_state rng0 w = (w, Inr scores)"
      by (simp add: prod_eq_iff)
    from get_all_pool_scores [OF assms this] show ?thesis by blast
  qed
  from a b c show ?thesis by blast
qed

theorem pool_branch_leaves_store_witness:
  "(1::int) < 2
   \<and> fst (recursive_feature_selection_roc_auc toy_env 0 toy_X toy_y None 5 2 2 True False
           (\<lambda>k. 0) toy_store0) = toy_store0
   \<and> fst (get_all_auc_scores toy_env 0 [] toy_X toy_y None 2 2 True RS_None 0 toy_store0)
       = toy_store0
   \<and> snd (get_all_auc_scores toy_env 0 [] toy_X toy_y None 2 2 True RS_None 0 toy_store0)
       = Inr [Some (3 / 4), Some (1 / 2)]
   \<and> snd (single_auc_score toy_env 0 0 [([1, 3], [0, 2]), ([0, 2], [1, 3])]
           \<lparr>ncols = 1, rows = [[0], [0], [1], [5]]\<rparr> toy_y None toy_store0)
       = Inr (0, Some (3 / 4))"
proof -
  have a: "(1::int) < 2" by simp
  have s: "snd (get_all_auc_scores toy_env 0 [] toy_X toy_y None 2 2 True RS_None 0 toy_store0)
       = Inr [Some (3 / 4), Some (1 / 2)]" by code_simp
  have t: "snd (single_auc_score toy_env 0 0 [([1, 3], [0, 2]), ([0, 2], [1, 3])]
           \<lparr>ncols = 1, rows = [[0], [0], [1], [5]]\<rparr> toy_y None toy_store0)
       = Inr (0, Some (3 / 4))" by code_simp
  from pool_branch_leaves_store [OF a, of toy_env 0 toy_X toy_y None 5 2 True False "\<lambda>k. 0"
      toy_store0 "[]" RS_None 0] a s t
  show ?thesis by simp
qed

subsection \<open>The generator of the split plan\<close>

lemma cv_loop_RandomState:
  "cv_loop (env\<lparr>RandomState := r\<rparr>) cv_indices X y sample_weight clf vars w
   = cv_loop env cv_indices X y sample_weight clf vars w"
  by (induction cv_indices arbitrary: clf vars w) (auto split: sum.splits prod.splits)

lemma single_auc_score_RandomState:
  "single_auc_score (env\<lparr>RandomState := r\<rparr>) f clf cv_indices X y sample_weight w
   = single_auc_score env f clf cv_indices X y sample_weight w"
  by (simp add: single_auc_score_def single_y_pred_def cv_loop_RandomState
        cong: sum.case_cong prod.case_cong option.case_cong)

lemma sequential_loop_RandomState:
  "sequential_loop (env\<lparr>RandomState := r\<rparr>) clf cv_indices y sample_weight a args w
   = sequential_loop env clf cv_indices y sample_weight a args w"
  by (induction args arbitrary: a w)
     (auto simp: single_auc_score_RandomState split: sum.splits prod.splits)

lemma get_all_RandomState:
  "get_all_auc_scores (env\<lparr>RandomState := r\<rparr>) clf selected_features X y sample_weight cv_steps
     n_jobs forward RS_None rng0 w
   = get_all_auc_scores env clf selected_features X y sample_weight cv_steps n_jobs forward
       RS_None rng0 w"
  by (simp add: get_all_auc_scores_def make_random_state_def submit_all_def
        single_auc_score_RandomState sequential_loop_RandomState
        cong: sum.case_cong if_cong)

lemma selection_step_RandomState:
  "selection_step (env\<lparr>RandomState := r\<rparr>) clf X y sample_weight cv_steps n_jobs forward
     matching_features entropy selected auc_scores w
   = selection_step env clf X y sample_weight cv_steps n_jobs forward matching_features entropy
       selected auc_scores w"
  by (simp add: selection_step_def get_all_RandomState)

lemma selection_loop_RandomState:
  "selection_loop (env\<lparr>RandomState := r\<rparr>) clf X y sample_weight n cv_steps n_jobs forward
     matching_features entropy selected auc_scores w
   = selection_loop env clf X y sample_weight n cv_steps n_jobs forward matching_features entropy
       selected auc_scores w"
proof (induction env clf X y sample_weight n cv_steps n_jobs forward matching_features entropy
    selected auc_scores w rule: selection_loop.induct)
  case (1 env clf X y sample_weight n_features cv_steps n_jobs forward matching_features entropy
      selected_features auc_scores w)
  note L = selection_loop.simps [of "env\<lparr>RandomState := r\<rparr>" clf X y sample_weight n_features
      cv_steps n_jobs forward matching_features entropy selected_features auc_scores w]
  note R = selection_loop.simps [of env clf X y sample_weight n_features cv_steps n_jobs
      forward matching_features entropy selected_features auc_scores w]
  show ?case
  proof (cases "int (length selected_features) = n_features")
    case True
    then show ?thesis by (simp add: L R)
  next
    case False
    obtain w1 r1 where s: "selection_step env clf X y sample_weight cv_steps n_jobs forward
        matching_features entropy selected_features auc_scores w = (w1, r1)"
      by (cases "selection_step env clf X y sample_weight cv_steps n_jobs forward
        matching_features entropy selected_features auc_scores w")
    show ?thesis
    proof (cases r1)
      case (Inl e)
      with False s show ?thesis by (simp add: L R selection_step_RandomState)
    next
      case (Inr p)
      obtain sel2 M2 where p: "p = (sel2, M2)" by (cases p)
      from s Inr p have s': "selection_step env clf X y sample_weight cv_steps n_jobs forward
        matching_features entropy selected_features auc_scores w = (w1, Inr (sel2, M2))" by simp
      from "1.IH" [OF False s' [symmetric] refl refl] False s'
      show ?thesis by (simp add: L R selection_step_RandomState)
    qed
  qed
qed

text \<open>
  Claim C10. The entry point never seeds a generator from an integer: whatever
  \<^verbatim>\<open>RandomState(seed)\<close> would return, the result is the same, every pass taking the
  generator the operating system hands out. So the split plan cannot be fixed from
  outside, and two runs on the same inputs can differ: the instance below selects
  feature 0 under one generator and feature 1 under another, with different Score
  Matrices.
\<close>

theorem entry_point_draws_its_generators:
  "(\<forall>r. recursive_feature_selection_roc_auc (env\<lparr>RandomState := r\<rparr>) clf X y sample_weight
           n_features cv_steps n_jobs forward matching_features entropy w
        = recursive_feature_selection_roc_auc env clf X y sample_weight n_features cv_steps n_jobs
            forward matching_features entropy w)
   \<and> snd (recursive_feature_selection_roc_auc toy_env 0 toy_X toy_y None 1 2 2 True False
           (\<lambda>k. 0) toy_store0) = Inr ([Some 0], [[Some (3 / 4), Some (1 / 2)]])
   \<and> snd (recursive_feature_selection_roc_auc toy_env 0 toy_X toy_y None 1 2 2 True False
           (\<lambda>k. 1) toy_store0) = Inr ([Some 1], [[Some (1 / 2), Some (3 / 4)]])"
proof -
  have a: "recursive_feature_selection_roc_auc (env\<lparr>RandomState := r\<rparr>) clf X y sample_weight
           n_features cv_steps n_jobs forward matching_features entropy w
        = recursive_feature_selection_roc_auc env clf X y sample_weight n_features cv_steps n_jobs
            forward matching_features entropy w" for r
    by (simp add: recursive_feature_selection_roc_auc_def Let_def selection_loop_RandomState)
  have b: "snd (recursive_feature_selection_roc_auc toy_env 0 toy_X toy_y None 1 2 2 True False
           (\<lambda>k. 0) toy_store0) = Inr ([Some 0], [[Some (3 / 4), Some (1 / 2)]])"
    by code_simp
  have c: "snd (recursive_feature_selection_roc_auc toy_env 0 toy_X toy_y None 1 2 2 True False
           (\<lambda>k. 1) toy_store0) = Inr ([Some 1], [[Some (1 / 2), Some (3 / 4)]])"
    by code_simp
  from a b c show ?thesis by blast
qed

end
